theory Spec2Isabelle
  imports
    Complex_Main
    "HOL-Library.Char_ord"
    "HOL-Library.List_Lexorder"
    "HOL-Library.Product_Lexorder"
    "HOL-Library.Multiset"
begin

section \<open>The photo rotation scheduler: data model\<close>

text \<open>
  The theory embeds the rotation engine of \<^verbatim>\<open>photo_rotation_scheduler.py\<close> (class
  \<^verbatim>\<open>PhotoScheduler\<close>): the two persisted stores, the date resolver, the photo selector,
  the two rotation operations and the schedule computation. The graphical form is left
  out; what the engine reads from it (texts of the entry fields) and what the operating
  system answers (file metadata, the clock, failures of file operations) is collected in
  the record \<open>env\<close>, what the engine changes in the record \<open>state\<close>.
\<close>

type_synonym timestamp = real
type_synonym filename = string

text \<open>Python exceptions that the modelled code raises or catches.\<close>

datatype error = ValueError | TypeError | OSError | LibraryMissing

text \<open>
  What \<^verbatim>\<open>json.load\<close> can return. An object keeps its members as a list of pairs.
\<close>

datatype json =
    JNull
  | JBool bool
  | JNum real
  | JStr string
  | JList "json list"
  | JDict "(string \<times> json) list"

text \<open>
  A record file as the loaders meet it: \<open>Missing\<close> when \<^verbatim>\<open>Path(...).exists()\<close> is false,
  \<open>Unreadable\<close> when \<^verbatim>\<open>open\<close> raises, \<open>Corrupt\<close> when \<^verbatim>\<open>json.load\<close> raises, and
  \<open>Payload v\<close> when \<^verbatim>\<open>json.load\<close> returns \<open>v\<close>.
\<close>

datatype 'a file_state = Missing | Unreadable | Corrupt | Payload 'a

text \<open>
  The elements of a Python set built from JSON scalars. Python identifies \<^verbatim>\<open>True\<close>,
  \<^verbatim>\<open>1\<close> and \<^verbatim>\<open>1.0\<close> as set elements, so a boolean is stored under its number. Lists and
  objects are not hashable: \<^verbatim>\<open>set\<close> raises \<^verbatim>\<open>TypeError\<close> on them.
\<close>

datatype pykey = KNone | KNum real | KStr string

fun hashable :: "json \<Rightarrow> pykey option" where
  "hashable JNull = Some KNone"
| "hashable (JBool b) = Some (KNum (if b then 1 else 0))"
| "hashable (JNum r) = Some (KNum r)"
| "hashable (JStr s) = Some (KStr s)"
| "hashable (JList xs) = None"
| "hashable (JDict kvs) = None"

fun json_of_key :: "pykey \<Rightarrow> json" where
  "json_of_key KNone = JNull"
| "json_of_key (KNum r) = JNum r"
| "json_of_key (KStr s) = JStr s"

text \<open>A directory entry: a regular file or a subdirectory, with its name.\<close>

datatype entry = File filename | Dir filename

fun entry_name :: "entry \<Rightarrow> filename" where
  "entry_name (File n) = n"
| "entry_name (Dir n) = n"

text \<open>The result of \<^verbatim>\<open>Path.stat()\<close>; \<open>st_birthtime\<close> is absent on most platforms.\<close>

record stat_result =
  st_birthtime :: "timestamp option"
  st_ctime :: timestamp
  st_mtime :: timestamp

text \<open>
  The environment of one run. A photo of the library is named by its file name (all
  paths the selector handles lie in the library directory).
  \<^item> \<open>exif_available\<close>: the constant \<^verbatim>\<open>EXIF_AVAILABLE\<close>;
  \<^item> \<open>image_exif p\<close>: the tags \<^verbatim>\<open>Image.open(p).getexif()\<close> returns, \<open>None\<close> when it raises;
  \<^item> \<open>strptime_timestamp v\<close>: \<^verbatim>\<open>datetime.strptime(v, '%Y:%m:%d %H:%M:%S').timestamp()\<close>,
    \<open>None\<close> when it raises;
  \<^item> \<open>stat p\<close>: \<^verbatim>\<open>p.stat()\<close>, \<open>None\<close> when it raises; \<open>os_name_nt\<close>: \<^verbatim>\<open>os.name == 'nt'\<close>;
  \<^item> \<open>clock i\<close>: what the \<open>i\<close>-th call of \<^verbatim>\<open>time.time()\<close> returns;
  \<^item> \<open>rng i\<close>: the \<open>i\<close>-th draw of the random generator during one \<^verbatim>\<open>random.sample\<close>;
  \<^item> \<open>set_iteration\<close>: the order in which Python iterates a non-empty set;
  \<^item> \<open>log_writable\<close>, \<open>cache_writable\<close>: whether \<^verbatim>\<open>open(..., 'w')\<close> succeeds on the
    view-history and on the date-cache record;
  \<^item> \<open>unlink_raises\<close>, \<open>rename_raises\<close>: the files on which deleting or moving raises;
  \<^item> \<open>mkdir_raises\<close>, \<open>thread_start_raises\<close>: failures of creating the gallery and of
    starting the worker;
  \<^item> \<open>paths_coincide\<close>: whether library and gallery resolve to the same path;
  \<^item> \<open>photo_count\<close>: \<^verbatim>\<open>int(self.photo_count.get())\<close>, \<open>None\<close> when it raises
    \<^verbatim>\<open>ValueError\<close>; \<open>selection_mode\<close>: the text of the mode field.
\<close>

record env =
  exif_available :: bool
  image_exif :: "filename \<Rightarrow> (nat \<times> string) list option"
  strptime_timestamp :: "string \<Rightarrow> timestamp option"
  stat :: "filename \<Rightarrow> stat_result option"
  os_name_nt :: bool
  clock :: "nat \<Rightarrow> timestamp"
  rng :: "nat \<Rightarrow> nat"
  set_iteration :: "pykey set \<Rightarrow> pykey list"
  log_writable :: bool
  cache_writable :: bool
  unlink_raises :: "filename \<Rightarrow> bool"
  rename_raises :: "filename \<Rightarrow> bool"
  mkdir_raises :: bool
  thread_start_raises :: bool
  paths_coincide :: bool
  photo_count :: "int option"
  selection_mode :: string

text \<open>
  The state of the engine and of the files it owns.
  \<^item> \<open>viewed_photos\<close>, \<open>date_cache\<close>, \<open>cache_dirty\<close>: the attributes of the same names;
  \<^item> \<open>log_file\<close>, \<open>cache_file\<close>: the records \<^verbatim>\<open>viewed_photos.json\<close> and
    \<^verbatim>\<open>photo_dates.json\<close>. The date-cache record is modelled for payloads that map
    names to numbers, which is what \<^verbatim>\<open>save_date_cache\<close> writes;
  \<^item> \<open>library\<close>, \<open>gallery\<close>: the entries of the two directories in the order
    \<^verbatim>\<open>iterdir\<close> lists them, \<open>None\<close> when the directory does not exist;
  \<^item> \<open>operation_lock\<close>: whether \<^verbatim>\<open>operation_lock\<close> is held;
  \<^item> \<open>operation_cancelled\<close>: the event \<^verbatim>\<open>operation_cancelled\<close>;
  \<^item> \<open>shutdown_after\<close>: the interleaving with the closing window. \<open>Some k\<close> means that
    \<^verbatim>\<open>on_closing\<close> sets the event after \<open>k\<close> more polls of the event have answered
    false; \<open>None\<close> means that no shutdown request arrives;
  \<^item> \<open>clock_reads\<close>: how often \<^verbatim>\<open>time.time()\<close> has been called.
\<close>

record state =
  viewed_photos :: "pykey set"
  date_cache :: "filename \<rightharpoonup> timestamp"
  cache_dirty :: bool
  log_file :: "json file_state"
  cache_file :: "(filename \<rightharpoonup> timestamp) file_state"
  library :: "entry list option"
  gallery :: "entry list option"
  operation_lock :: bool
  operation_cancelled :: bool
  shutdown_after :: "nat option"
  clock_reads :: nat

text \<open>
  \<^verbatim>\<open>self.operation_cancelled.is_set()\<close>: one poll of the event. The event is levelled:
  once set it stays set until the next accepted operation clears it.
\<close>

definition is_set :: "state \<Rightarrow> bool \<times> state" where
  "is_set s =
     (if operation_cancelled s then (True, s)
      else case shutdown_after s of
             None \<Rightarrow> (False, s)
           | Some 0 \<Rightarrow> (True, s\<lparr>operation_cancelled := True, shutdown_after := None\<rparr>)
           | Some (Suc k) \<Rightarrow> (False, s\<lparr>shutdown_after := Some k\<rparr>))"

section \<open>View-history store\<close>

text \<open>
  The body of the \<^verbatim>\<open>try\<close> in \<^verbatim>\<open>load_viewed_photos\<close>: \<open>Inl\<close> is an exception,
  \<open>Inr None\<close> leaving the block without a \<^verbatim>\<open>return\<close>, \<open>Inr (Some S)\<close> returning \<open>S\<close>.
  \<^verbatim>\<open>set(data)\<close> raises \<^verbatim>\<open>TypeError\<close> when an element is not hashable.
\<close>

fun py_set :: "json list \<Rightarrow> error + pykey set" where
  "py_set [] = Inr {}"
| "py_set (x # xs) =
     (case hashable x of
        None \<Rightarrow> Inl TypeError
      | Some k \<Rightarrow> (case py_set xs of Inl e \<Rightarrow> Inl e | Inr S \<Rightarrow> Inr (insert k S)))"

definition load_viewed_photos_try :: "json file_state \<Rightarrow> error + pykey set option" where
  "load_viewed_photos_try f =
     (case f of
        Missing \<Rightarrow> Inr None
      | Unreadable \<Rightarrow> Inl OSError
      | Corrupt \<Rightarrow> Inl ValueError
      | Payload data \<Rightarrow>
          (case data of
             JList xs \<Rightarrow> (case py_set xs of Inl e \<Rightarrow> Inl e | Inr S \<Rightarrow> Inr (Some S))
           | _ \<Rightarrow> Inr (Some {})))"

text \<open>
  \<^verbatim>\<open>load_viewed_photos\<close>: the handler logs every exception of the body, and the
  function ends with \<^verbatim>\<open>return set()\<close>.
\<close>

definition load_viewed_photos :: "json file_state \<Rightarrow> pykey set" where
  "load_viewed_photos f =
     (case load_viewed_photos_try f of
        Inl e \<Rightarrow> {}
      | Inr None \<Rightarrow> {}
      | Inr (Some S) \<Rightarrow> S)"

text \<open>\<^verbatim>\<open>list(self.viewed_photos)\<close>: the empty set gives the empty list.\<close>

definition py_list :: "env \<Rightarrow> pykey set \<Rightarrow> pykey list" where
  "py_list e S = (if S = {} then [] else set_iteration e S)"

text \<open>
  \<^verbatim>\<open>save_viewed_photos\<close>: the whole record is rewritten; an I/O error is logged and the
  record stays as it was.
\<close>

definition save_viewed_photos :: "env \<Rightarrow> state \<Rightarrow> state" where
  "save_viewed_photos e s =
     (if log_writable e
      then s\<lparr>log_file := Payload (JList (map json_of_key (py_list e (viewed_photos s))))\<rparr>
      else s)"

section \<open>Date cache store and date resolver\<close>

definition load_date_cache_try ::
  "(filename \<rightharpoonup> timestamp) file_state \<Rightarrow> error + (filename \<rightharpoonup> timestamp) option" where
  "load_date_cache_try f =
     (case f of
        Missing \<Rightarrow> Inr None
      | Unreadable \<Rightarrow> Inl OSError
      | Corrupt \<Rightarrow> Inl ValueError
      | Payload m \<Rightarrow> Inr (Some m))"

definition load_date_cache ::
  "(filename \<rightharpoonup> timestamp) file_state \<Rightarrow> (filename \<rightharpoonup> timestamp)" where
  "load_date_cache f =
     (case load_date_cache_try f of
        Inl e \<Rightarrow> Map.empty
      | Inr None \<Rightarrow> Map.empty
      | Inr (Some m) \<Rightarrow> m)"

definition save_date_cache :: "env \<Rightarrow> state \<Rightarrow> state" where
  "save_date_cache e s =
     (if \<not> cache_dirty s then s
      else if cache_writable e
      then s\<lparr>cache_file := Payload (date_cache s), cache_dirty := False\<rparr>
      else s)"

text \<open>
  The loop over the tags 36867, 36868, 306 (lines 94 to 96): the first tag that is
  present with a non-empty value decides; when its value does not parse, the exception
  leaves the loop.
\<close>

fun exif_lookup :: "env \<Rightarrow> (nat \<times> string) list \<Rightarrow> nat list \<Rightarrow> error + timestamp option" where
  "exif_lookup e exif [] = Inr None"
| "exif_lookup e exif (tag # tags) =
     (case map_of exif tag of
        None \<Rightarrow> exif_lookup e exif tags
      | Some v \<Rightarrow>
          if v \<noteq> []
          then (case strptime_timestamp e v of None \<Rightarrow> Inl ValueError | Some t \<Rightarrow> Inr (Some t))
          else exif_lookup e exif tags)"

text \<open>The inner \<^verbatim>\<open>try\<close> (lines 89 to 98): every exception is passed over.\<close>

definition read_exif_date :: "env \<Rightarrow> filename \<Rightarrow> timestamp option" where
  "read_exif_date e p =
     (if exif_available e
      then (case (case image_exif e p of
                    None \<Rightarrow> Inl OSError
                  | Some exif \<Rightarrow>
                      if exif \<noteq> [] then exif_lookup e exif [36867, 36868, 306] else Inr None) of
              Inl err \<Rightarrow> None
            | Inr r \<Rightarrow> r)
      else None)"

text \<open>Lines 100 to 105: \<open>Inl\<close> when \<^verbatim>\<open>stat()\<close> raises.\<close>

definition stat_date :: "env \<Rightarrow> filename \<Rightarrow> error + timestamp" where
  "stat_date e p =
     (case stat e p of
        None \<Rightarrow> Inl OSError
      | Some st \<Rightarrow>
          Inr (case st_birthtime st of
                 Some b \<Rightarrow> b
               | None \<Rightarrow> if os_name_nt e then st_ctime st else st_mtime st))"

text \<open>The body of the outer \<^verbatim>\<open>try\<close> of \<^verbatim>\<open>_calculate_photo_date\<close>.\<close>

definition calculate_photo_date_try :: "env \<Rightarrow> filename \<Rightarrow> error + timestamp" where
  "calculate_photo_date_try e p =
     (case read_exif_date e p of Some t \<Rightarrow> Inr t | None \<Rightarrow> stat_date e p)"

text \<open>
  \<^verbatim>\<open>_calculate_photo_date\<close> with its handler (lines 106 to 108): whatever the body
  raises, the handler answers with a reading of the clock.
\<close>

definition calculate_photo_date :: "env \<Rightarrow> state \<Rightarrow> filename \<Rightarrow> timestamp \<times> state" where
  "calculate_photo_date e s p =
     (case calculate_photo_date_try e p of
        Inr t \<Rightarrow> (t, s)
      | Inl err \<Rightarrow> (clock e (clock_reads s), s\<lparr>clock_reads := Suc (clock_reads s)\<rparr>))"

text \<open>\<^verbatim>\<open>get_photo_date\<close>: the cache is asked first, a miss is resolved and stored.\<close>

definition get_photo_date :: "env \<Rightarrow> state \<Rightarrow> filename \<Rightarrow> timestamp \<times> state" where
  "get_photo_date e s p =
     (case date_cache s p of
        Some d \<Rightarrow> (d, s)
      | None \<Rightarrow>
          (let (d, s1) = calculate_photo_date e s p
           in (d, s1\<lparr>date_cache := (date_cache s1)(p \<mapsto> d), cache_dirty := True\<rparr>)))"

text \<open>
  \<^verbatim>\<open>reset_history\<close>: refused while an operation holds the lock; otherwise view history
  and date cache are emptied and both records rewritten.
\<close>

definition reset_history :: "env \<Rightarrow> state \<Rightarrow> state" where
  "reset_history e s =
     (if operation_lock s then s
      else let s1 = save_viewed_photos e (s\<lparr>viewed_photos := {}\<rparr>);
               s2 = s1\<lparr>date_cache := Map.empty, cache_dirty := True\<rparr>
           in save_date_cache e s2)"

section \<open>Directory enumeration\<close>

text \<open>
  \<^verbatim>\<open>str.lower\<close> on the letters A to Z, and \<^verbatim>\<open>Path.suffix\<close>: the part of the name from
  its last dot, empty when the name has no dot, starts with its only dot or ends with
  a dot. Names are ASCII in this model.
\<close>

definition lower_char :: "char \<Rightarrow> char" where
  "lower_char c =
     (if CHR ''A'' \<le> c \<and> c \<le> CHR ''Z'' then char_of (of_char c + (32::nat)) else c)"

definition suffix :: "filename \<Rightarrow> string" where
  "suffix n =
     (let k = length (takeWhile (\<lambda>c. c \<noteq> CHR ''.'') (rev n))
      in if 0 < k \<and> Suc k < length n then drop (length n - Suc k) n else [])"

definition PHOTO_EXTENSIONS :: "string list" where
  "PHOTO_EXTENSIONS = [''.jpg'', ''.jpeg'', ''.png'', ''.gif'', ''.bmp'', ''.tiff'']"

fun is_file :: "entry \<Rightarrow> bool" where
  "is_file (File n) = True"
| "is_file (Dir n) = False"

definition is_photo :: "entry \<Rightarrow> bool" where
  "is_photo x = (is_file x \<and> map lower_char (suffix (entry_name x)) \<in> set PHOTO_EXTENSIONS)"

text \<open>\<^verbatim>\<open>iter_photos\<close>: a missing directory yields nothing.\<close>

definition iter_photos :: "entry list option \<Rightarrow> filename list" where
  "iter_photos d = (case d of None \<Rightarrow> [] | Some es \<Rightarrow> map entry_name (filter is_photo es))"

text \<open>
  \<^verbatim>\<open>Path.exists\<close>, \<^verbatim>\<open>unlink\<close> and \<^verbatim>\<open>rename\<close> on a directory given as the list of its
  entries. An entry is found by its name as it is spelled: the file system is taken to
  be case-sensitive. A file or a subdirectory of the name makes \<^verbatim>\<open>exists\<close> true.
\<close>

definition exists_in :: "entry list option \<Rightarrow> filename \<Rightarrow> bool" where
  "exists_in d n = (case d of None \<Rightarrow> False | Some es \<Rightarrow> n \<in> set (map entry_name es))"

definition dir_remove :: "filename \<Rightarrow> entry list option \<Rightarrow> entry list option" where
  "dir_remove n d = map_option (filter (\<lambda>x. entry_name x \<noteq> n)) d"

definition dir_add_file :: "filename \<Rightarrow> entry list option \<Rightarrow> entry list option" where
  "dir_add_file n d = map_option (\<lambda>es. filter (\<lambda>x. entry_name x \<noteq> n) es @ [File n]) d"

section \<open>Photo selector\<close>

text \<open>
  \<^verbatim>\<open>random.sample(pool, k)\<close> for \<open>k \<le> length pool\<close>, which is how line 323 calls it:
  \<open>k\<close> draws without replacement, the \<open>i\<close>-th draw taken from the generator.
\<close>

fun random_sample :: "(nat \<Rightarrow> nat) \<Rightarrow> nat \<Rightarrow> 'a list \<Rightarrow> nat \<Rightarrow> 'a list" where
  "random_sample r i pool 0 = []"
| "random_sample r i pool (Suc k) =
     (if pool = [] then []
      else let j = r i mod length pool
           in pool ! j # random_sample r (Suc i) (take j pool @ drop (Suc j) pool) k)"

text \<open>
  How two paths of one directory compare: as their names do, and on Windows
  (\<^verbatim>\<open>os.name == 'nt'\<close>, where \<^verbatim>\<open>Path\<close> is a \<^verbatim>\<open>WindowsPath\<close>) as their lower-cased
  names do. Two paths are equal when these keys are.
\<close>

definition path_key :: "env \<Rightarrow> filename \<Rightarrow> string" where
  "path_key e n = (if os_name_nt e then map lower_char n else n)"

text \<open>
  The order of the pairs \<^verbatim>\<open>(date, path)\<close> that \<^verbatim>\<open>heapq\<close> ranks: first by date, then by
  path.
\<close>

definition rank_key :: "env \<Rightarrow> timestamp \<times> filename \<Rightarrow> timestamp \<times> string" where
  "rank_key e x = (fst x, path_key e (snd x))"

text \<open>
  \<^verbatim>\<open>heapq.nlargest(n, it)\<close> and \<^verbatim>\<open>heapq.nsmallest(n, it)\<close> by their documented
  meaning, \<^verbatim>\<open>sorted(it, reverse=True)[:n]\<close> and \<^verbatim>\<open>sorted(it)[:n]\<close>, for elements that
  compare as their keys \<open>k\<close> do. Both sorts are stable: elements that compare equal
  keep the order in which the iterator yields them, also when the sort is reversed.
\<close>

definition nlargest :: "nat \<Rightarrow> ('a \<Rightarrow> 'k::linorder) \<Rightarrow> 'a list \<Rightarrow> 'a list" where
  "nlargest n k xs = take n (rev (sort_key k (rev xs)))"

definition nsmallest :: "nat \<Rightarrow> ('a \<Rightarrow> 'k::linorder) \<Rightarrow> 'a list \<Rightarrow> 'a list" where
  "nsmallest n k xs = take n (sort_key k xs)"

text \<open>
  The generator \<^verbatim>\<open>unviewed_photos\<close> (lines 307 to 313) run to its end, as
  \<^verbatim>\<open>list(unviewed_photos())\<close> does: the event is polled before every photo.
\<close>

fun unviewed_photos :: "state \<Rightarrow> filename list \<Rightarrow> filename list \<times> state" where
  "unviewed_photos s [] = ([], s)"
| "unviewed_photos s (photo # rest) =
     (let (c, s1) = is_set s
      in if c then ([], s1)
         else let (ys, s2) = unviewed_photos s1 rest
              in (if KStr photo \<notin> viewed_photos s1 then photo # ys else ys, s2))"

text \<open>
  The generator \<^verbatim>\<open>photo_with_date_gen\<close> (lines 329 to 337) on top of
  \<^verbatim>\<open>unviewed_photos\<close>, run to its end as \<^verbatim>\<open>heapq\<close> does: the event is polled once for
  every photo of the directory and once more for every unviewed one; every 5000th
  photo flushes the date cache. The second component counts the photos processed.
\<close>

fun photo_with_date_gen ::
  "env \<Rightarrow> state \<Rightarrow> nat \<Rightarrow> filename list \<Rightarrow> (timestamp \<times> filename) list \<times> nat \<times> state" where
  "photo_with_date_gen e s processed [] = ([], processed, s)"
| "photo_with_date_gen e s processed (photo # rest) =
     (let (c, s1) = is_set s
      in if c then ([], processed, s1)
         else if KStr photo \<in> viewed_photos s1 then photo_with_date_gen e s1 processed rest
         else let (c2, s2) = is_set s1
              in if c2 then ([], processed, s2)
                 else let s3 = (if Suc processed mod 5000 = 0 then save_date_cache e s2 else s2);
                          (d, s4) = get_photo_date e s3 photo;
                          (ys, n, s5) = photo_with_date_gen e s4 (Suc processed) rest
                      in ((d, photo) # ys, n, s5))"

text \<open>The generator \<^verbatim>\<open>all_photos_with_date\<close> (lines 354 to 361) of the second pass.\<close>

fun all_photos_with_date ::
  "env \<Rightarrow> state \<Rightarrow> nat \<Rightarrow> filename list \<Rightarrow> (timestamp \<times> filename) list \<times> nat \<times> state" where
  "all_photos_with_date e s processed [] = ([], processed, s)"
| "all_photos_with_date e s processed (photo # rest) =
     (let (c, s1) = is_set s
      in if c then ([], processed, s1)
         else let (d, s2) = get_photo_date e s1 photo;
                  (ys, n, s3) = all_photos_with_date e s2 (Suc processed) rest
              in ((d, photo) # ys, n, s3))"

text \<open>Line 304: the requested count is clamped to 1 .. 10000.\<close>

definition clamp_count :: "int \<Rightarrow> nat" where
  "clamp_count c = nat (max 1 (min c 10000))"

text \<open>Lines 318 to 321 and 348 to 351: the history is emptied and the record rewritten.\<close>

definition reset_viewed :: "env \<Rightarrow> state \<Rightarrow> state" where
  "reset_viewed e s = save_viewed_photos e (s\<lparr>viewed_photos := {}\<rparr>)"

text \<open>
  \<^verbatim>\<open>select_photos(library_path, count, mode)\<close> on the library of the state. The result
  lists the names of the selected photos.
\<close>

definition select_photos :: "env \<Rightarrow> state \<Rightarrow> int \<Rightarrow> string \<Rightarrow> filename list \<times> state" where
  "select_photos e s requested mode =
     (let cnt = clamp_count requested
      in if mode = ''Random''
         then
           (let (unviewed, s1) = unviewed_photos s (iter_photos (library s))
            in if length unviewed < cnt
               then (let s2 = reset_viewed e s1;
                         pool = iter_photos (library s2)
                     in (random_sample (rng e) 0 pool (min cnt (length pool)), s2))
               else (random_sample (rng e) 0 unviewed (min cnt (length unviewed)), s1))
         else
           (let (dated, processed, s1) = photo_with_date_gen e s 0 (iter_photos (library s));
                selected = map snd (if mode = ''Newest'' then nlargest cnt (rank_key e) dated
                                    else nsmallest cnt (rank_key e) dated);
                s2 = save_date_cache e s1
            in if length selected < cnt
               then (let s3 = reset_viewed e s2;
                         (dated2, processed2, s4) =
                            all_photos_with_date e s3 0 (iter_photos (library s3));
                         selected2 = map snd (if mode = ''Newest''
                                              then nlargest cnt (rank_key e) dated2
                                              else nsmallest cnt (rank_key e) dated2)
                     in (selected2, save_date_cache e s4))
               else (selected, s2)))"

section \<open>Rotation coordinator\<close>

text \<open>How an operation ends, as far as the caller and the status line can tell.\<close>

datatype outcome =
    Rejected
  | InvalidInput
  | InvalidPath
  | StartError
  | Cancelled
  | GalleryMissing
  | MovedBack nat
  | Switched nat
  | Failed error

text \<open>
  The loop that empties the gallery (lines 421 to 433, and again 508 to 520). The
  result tells whether the loop left the worker through \<^verbatim>\<open>return\<close> on cancellation,
  the number of photos moved back and the names of the deleted duplicates. A failing
  file operation is logged and the photo skipped; moving into a missing directory
  fails.
\<close>

fun return_gallery_photos ::
  "env \<Rightarrow> state \<Rightarrow> nat \<Rightarrow> filename list \<Rightarrow> filename list \<Rightarrow> bool \<times> nat \<times> filename list \<times> state" where
  "return_gallery_photos e s moved dupes [] = (False, moved, dupes, s)"
| "return_gallery_photos e s moved dupes (photo # rest) =
     (let (c, s1) = is_set s
      in if c then (True, moved, dupes, s1)
         else if exists_in (library s1) photo
         then (if unlink_raises e photo
               then return_gallery_photos e s1 moved dupes rest
               else return_gallery_photos e (s1\<lparr>gallery := dir_remove photo (gallery s1)\<rparr>)
                      moved (dupes @ [photo]) rest)
         else (if rename_raises e photo \<or> library s1 = None
               then return_gallery_photos e s1 moved dupes rest
               else return_gallery_photos e
                      (s1\<lparr>gallery := dir_remove photo (gallery s1),
                          library := dir_add_file photo (library s1)\<rparr>)
                      (Suc moved) dupes rest))"

text \<open>Lines 435 to 440 and 522 to 527.\<close>

definition forget_dupes :: "env \<Rightarrow> state \<Rightarrow> filename list \<Rightarrow> state" where
  "forget_dupes e s dupes =
     (if dupes \<noteq> []
      then save_viewed_photos e (s\<lparr>viewed_photos := viewed_photos s - KStr ` set dupes\<rparr>)
      else s)"

text \<open>
  The pass that empties the gallery, as both workers run it (lines 418 to 440 and 505
  to 527): the loop, then the duplicates are forgotten. On cancellation the worker is
  left inside the loop, before the duplicates deleted so far are forgotten.
\<close>

definition empty_gallery :: "env \<Rightarrow> state \<Rightarrow> bool \<times> nat \<times> state" where
  "empty_gallery e s =
     (let (cancelled, moved_back, deleted_dupes, s1) =
            return_gallery_photos e s 0 [] (iter_photos (gallery s))
      in if cancelled then (True, moved_back, s1)
         else (False, moved_back, forget_dupes e s1 deleted_dupes))"

text \<open>The loop that fills the gallery (lines 450 to 460).\<close>

fun move_to_gallery :: "env \<Rightarrow> state \<Rightarrow> nat \<Rightarrow> filename list \<Rightarrow> bool \<times> nat \<times> state" where
  "move_to_gallery e s moved [] = (False, moved, s)"
| "move_to_gallery e s moved (photo # rest) =
     (let (c, s1) = is_set s
      in if c then (True, moved, s1)
         else if rename_raises e photo \<or> \<not> exists_in (library s1) photo \<or> gallery s1 = None
         then move_to_gallery e s1 moved rest
         else move_to_gallery e
                (s1\<lparr>library := dir_remove photo (library s1),
                    gallery := dir_add_file photo (gallery s1),
                    viewed_photos := insert (KStr photo) (viewed_photos s1)\<rparr>)
                (Suc moved) rest)"

text \<open>
  The second half of the body of \<^verbatim>\<open>_switch_photos_worker\<close> (lines 445 to 464): the
  count is read again, the photos are selected and moved into the gallery, and the view
  history is saved. \<open>Inl\<close> is an exception, \<open>Inr\<close> the way the body ends otherwise.
\<close>

definition fill_gallery :: "env \<Rightarrow> state \<Rightarrow> (error + outcome) \<times> state" where
  "fill_gallery e s2 =
     (case photo_count e of
        None \<Rightarrow> (Inl ValueError, s2)
      | Some requested \<Rightarrow>
          (let (selected, s3) = select_photos e s2 requested (selection_mode e);
               (cancelled2, moved_to_gallery, s4) = move_to_gallery e s3 0 selected
           in if cancelled2 then (Inr Cancelled, s4)
              else (Inr (Switched moved_to_gallery), save_viewed_photos e s4)))"

text \<open>
  The body of the \<^verbatim>\<open>try\<close> of \<^verbatim>\<open>_switch_photos_worker\<close>: the library must exist, the
  gallery is created when it is absent, the gallery is emptied and then filled.
\<close>

definition switch_photos_worker_try :: "env \<Rightarrow> state \<Rightarrow> (error + outcome) \<times> state" where
  "switch_photos_worker_try e s =
     (if library s = None then (Inl LibraryMissing, s)
      else if gallery s = None \<and> mkdir_raises e then (Inl OSError, s)
      else
        (let s0 = (if gallery s = None then s\<lparr>gallery := Some []\<rparr> else s);
             (cancelled, moved_back, s2) = empty_gallery e s0
         in if cancelled then (Inr Cancelled, s2) else fill_gallery e s2))"

text \<open>
  The worker with its handler and its \<^verbatim>\<open>finally\<close> clause (lines 466 to 470): an
  exception becomes an error status, and the lock is released on every path.
\<close>

definition switch_photos_worker :: "env \<Rightarrow> state \<Rightarrow> outcome \<times> state" where
  "switch_photos_worker e s =
     (let (r, s1) = switch_photos_worker_try e s
      in (case r of Inl err \<Rightarrow> Failed err | Inr out \<Rightarrow> out, s1\<lparr>operation_lock := False\<rparr>))"

definition clear_gallery_worker_try :: "env \<Rightarrow> state \<Rightarrow> (error + outcome) \<times> state" where
  "clear_gallery_worker_try e s =
     (if gallery s = None then (Inr GalleryMissing, s)
      else
        (let (cancelled, moved_back, s2) = empty_gallery e s
         in if cancelled then (Inr Cancelled, s2) else (Inr (MovedBack moved_back), s2)))"

definition clear_gallery_worker :: "env \<Rightarrow> state \<Rightarrow> outcome \<times> state" where
  "clear_gallery_worker e s =
     (let (r, s1) = clear_gallery_worker_try e s
      in (case r of Inl err \<Rightarrow> Failed err | Inr out \<Rightarrow> out, s1\<lparr>operation_lock := False\<rparr>))"

text \<open>
  \<^verbatim>\<open>switch_photos_async\<close> followed by its worker. The worker runs in a thread of its
  own while the lock is held; no second operation is accepted meanwhile, so the model
  runs the worker to its end at the place where the thread is started.
\<close>

definition switch_photos_async :: "env \<Rightarrow> state \<Rightarrow> outcome \<times> state" where
  "switch_photos_async e s =
     (if operation_lock s then (Rejected, s)
      else
        (let s1 = s\<lparr>operation_lock := True, operation_cancelled := False\<rparr>
         in case photo_count e of
              None \<Rightarrow> (InvalidInput, s1\<lparr>operation_lock := False\<rparr>)
            | Some requested \<Rightarrow>
                if requested \<le> 0 then (InvalidInput, s1\<lparr>operation_lock := False\<rparr>)
                else if paths_coincide e then (InvalidPath, s1\<lparr>operation_lock := False\<rparr>)
                else if thread_start_raises e then (StartError, s1\<lparr>operation_lock := False\<rparr>)
                else switch_photos_worker e s1))"

definition clear_gallery_async :: "env \<Rightarrow> state \<Rightarrow> outcome \<times> state" where
  "clear_gallery_async e s =
     (if operation_lock s then (Rejected, s)
      else
        (let s1 = s\<lparr>operation_lock := True, operation_cancelled := False\<rparr>
         in if paths_coincide e then (InvalidPath, s1\<lparr>operation_lock := False\<rparr>)
            else if thread_start_raises e then (StartError, s1\<lparr>operation_lock := False\<rparr>)
            else clear_gallery_worker e s1))"

section \<open>Schedule evaluator\<close>

text \<open>
  A \<^verbatim>\<open>datetime\<close>: the ordinal of its calendar date and the microseconds since midnight.
\<close>

record datetime =
  day :: int
  us_of_day :: nat

definition DAY_US :: nat where
  "DAY_US = 86400000000"

definition digit_val :: "char \<Rightarrow> nat option" where
  "digit_val c =
     (if CHR ''0'' \<le> c \<and> c \<le> CHR ''9'' then Some (of_char c - 48) else None)"

text \<open>A number of one or two digits that does not exceed the bound.\<close>

definition digits2 :: "string \<Rightarrow> nat \<Rightarrow> nat option" where
  "digits2 ds bound =
     (case ds of
        [a] \<Rightarrow> digit_val a
      | [a, b] \<Rightarrow>
          (case digit_val a of
             None \<Rightarrow> None
           | Some x \<Rightarrow>
               (case digit_val b of
                  None \<Rightarrow> None
                | Some y \<Rightarrow> if 10 * x + y \<le> bound then Some (10 * x + y) else None))
      | _ \<Rightarrow> None)"

text \<open>
  \<^verbatim>\<open>datetime.strptime(s, "%H:%M")\<close>: the hour is one digit or two digits up to 23, the
  minute one digit or two digits up to 59, with a colon between and nothing else;
  \<open>None\<close> stands for \<^verbatim>\<open>ValueError\<close>. On a string that passes, \<^verbatim>\<open>int\<close> on the two parts of
  \<^verbatim>\<open>s.split(':')\<close> (line 241) gives the same two numbers.
\<close>

definition strptime_HM :: "string \<Rightarrow> (nat \<times> nat) option" where
  "strptime_HM s =
     (case dropWhile (\<lambda>c. c \<noteq> CHR '':'') s of
        [] \<Rightarrow> None
      | colon # m \<Rightarrow>
          (case digits2 (takeWhile (\<lambda>c. c \<noteq> CHR '':'') s) 23 of
             None \<Rightarrow> None
           | Some hh \<Rightarrow>
               (case digits2 m 59 of None \<Rightarrow> None | Some mm \<Rightarrow> Some (hh, mm))))"

definition validate_time_format :: "string \<Rightarrow> bool" where
  "validate_time_format s = (strptime_HM s \<noteq> None)"

text \<open>
  \<^verbatim>\<open>timedelta(hours=24/switches)\<close> in microseconds: a \<^verbatim>\<open>timedelta\<close> holds whole
  microseconds, the quotient is rounded to the nearest one (halves to the even one).
\<close>

definition interval_us :: "nat \<Rightarrow> nat" where
  "interval_us n =
     (let q = DAY_US div n; r = DAY_US mod n
      in if 2 * r < n then q else if n < 2 * r then Suc q else if even q then q else Suc q)"

text \<open>Adding a \<^verbatim>\<open>timedelta\<close> of \<open>d\<close> microseconds carries into the date.\<close>

definition add_us :: "datetime \<Rightarrow> nat \<Rightarrow> datetime" where
  "add_us t d =
     t\<lparr>day := day t + int ((us_of_day t + d) div DAY_US),
       us_of_day := (us_of_day t + d) mod DAY_US\<rparr>"

text \<open>
  \<^verbatim>\<open>get_switch_times\<close> as a function of the text of the time field, of
  \<^verbatim>\<open>int(self.switches_per_day.get())\<close> (\<open>None\<close> when it raises \<^verbatim>\<open>ValueError\<close>, which the
  handler at line 255 turns into the empty list) and of \<^verbatim>\<open>datetime.now()\<close>.
\<close>

definition get_switch_times :: "string \<Rightarrow> int option \<Rightarrow> datetime \<Rightarrow> datetime list" where
  "get_switch_times main_time switches_text now =
     (if \<not> validate_time_format main_time then []
      else case switches_text of
             None \<Rightarrow> []
           | Some switches \<Rightarrow>
               if switches \<le> 0 \<or> switches > 100 then []
               else
                 (let (main_hour, main_min) = the (strptime_HM main_time);
                      main_datetime = now\<lparr>us_of_day := (main_hour * 60 + main_min) * 60 * 1000000\<rparr>
                  in if switches = 1 then [main_datetime]
                     else
                       (let interval = interval_us (nat switches);
                            times = map (\<lambda>i. add_us main_datetime (interval * i))
                                      [0..<nat switches];
                            today = day now;
                            times2 = map (\<lambda>t. t\<lparr>day := today\<rparr>) times
                        in sort_key (\<lambda>t. (day t, us_of_day t)) times2)))"

section \<open>Notions for the statements\<close>

text \<open>
  \<open>quiet\<close>: the cancellation event is clear and no shutdown request will arrive, so
  every poll answers false. \<open>scan_frame\<close>: what a scan of the library leaves as it
  is. \<open>cache_grows\<close>: every entry of the date cache is kept.
\<close>

definition quiet :: "state \<Rightarrow> bool" where
  "quiet s = (\<not> operation_cancelled s \<and> shutdown_after s = None)"

definition scan_frame :: "state \<Rightarrow> state \<Rightarrow> bool" where
  "scan_frame s t =
     (viewed_photos t = viewed_photos s \<and> library t = library s \<and> gallery t = gallery s \<and>
      operation_lock t = operation_lock s \<and> operation_cancelled t = operation_cancelled s \<and>
      shutdown_after t = shutdown_after s \<and> log_file t = log_file s)"

definition cache_grows :: "state \<Rightarrow> state \<Rightarrow> bool" where
  "cache_grows s t = (\<forall>q c. date_cache s q = Some c \<longrightarrow> date_cache t q = Some c)"

text \<open>
  The ranking step of the date modes (lines 339 to 342 and 363 to 366): the names of the
  \<open>cnt\<close> newest or oldest of the dated photos.
\<close>

definition pick ::
  "env \<Rightarrow> nat \<Rightarrow> string \<Rightarrow> (timestamp \<times> filename) list \<Rightarrow> filename list" where
  "pick e cnt mode dated =
     map snd (if mode = ''Newest'' then nlargest cnt (rank_key e) dated
              else nsmallest cnt (rank_key e) dated)"

text \<open>The state in which the pass that empties the gallery leaves the program.\<close>

abbreviation emptied :: "env \<Rightarrow> state \<Rightarrow> state" where
  "emptied e s \<equiv> snd (snd (empty_gallery e s))"

text \<open>
  \<open>op_succeeds\<close>: the file operation that the pass attempts on the gallery photo \<open>p\<close>
  does not raise: \<^verbatim>\<open>unlink\<close> when the name exists in the library \<open>L\<close>, \<^verbatim>\<open>rename\<close>
  otherwise.
\<close>

definition op_succeeds :: "env \<Rightarrow> entry list \<Rightarrow> filename \<Rightarrow> bool" where
  "op_succeeds e L p =
     (if exists_in (Some L) p then \<not> unlink_raises e p else \<not> rename_raises e p)"

text \<open>
  \<open>datable\<close>: the date of a photo is cached or can be read from the file, so that
  resolving it does not fall back on the clock; \<open>known_date\<close> is that date.
\<close>

definition known_date :: "env \<Rightarrow> state \<Rightarrow> filename \<Rightarrow> timestamp" where
  "known_date e s p =
     (case date_cache s p of
        Some d \<Rightarrow> d
      | None \<Rightarrow> (case calculate_photo_date_try e p of Inr d \<Rightarrow> d | Inl err \<Rightarrow> 0))"

definition datable :: "env \<Rightarrow> state \<Rightarrow> filename \<Rightarrow> bool" where
  "datable e s p = (date_cache s p \<noteq> None \<or> (\<exists>d. calculate_photo_date_try e p = Inr d))"

section \<open>An example environment and state\<close>

text \<open>
  A library with three photos, a subdirectory and a text file; \<^verbatim>\<open>a.jpg\<close> carries
  embedded metadata, \<^verbatim>\<open>b.jpg\<close> has file times only, and \<^verbatim>\<open>stat\<close> fails on every other
  file. The gallery holds a copy of \<^verbatim>\<open>c.jpg\<close> and a photo \<^verbatim>\<open>d.jpg\<close> of its own.
\<close>

definition example_env :: env where
  "example_env =
     \<lparr>exif_available = True,
      image_exif = (\<lambda>p. if p = ''a.jpg'' then Some [(36867, ''2020:01:02 03:04:05'')] else None),
      strptime_timestamp = (\<lambda>v. if v = ''2020:01:02 03:04:05'' then Some 1577934245 else None),
      stat = (\<lambda>p. if p = ''b.jpg''
                   then Some \<lparr>st_birthtime = None, st_ctime = 20, st_mtime = 10\<rparr> else None),
      os_name_nt = False,
      clock = (\<lambda>i. 1000 + real i),
      rng = (\<lambda>i. 0),
      set_iteration =
        (\<lambda>S. filter (\<lambda>k. k \<in> S) [KStr ''a.jpg'', KStr ''b.jpg'', KStr ''c.jpg'', KStr ''d.jpg'']),
      log_writable = True,
      cache_writable = True,
      unlink_raises = (\<lambda>p. False),
      rename_raises = (\<lambda>p. False),
      mkdir_raises = False,
      thread_start_raises = False,
      paths_coincide = False,
      photo_count = Some 1,
      selection_mode = ''Random''\<rparr>"

definition example_state :: state where
  "example_state =
     \<lparr>viewed_photos = {KStr ''c.jpg''},
      date_cache = Map.empty,
      cache_dirty = False,
      log_file = Missing,
      cache_file = Missing,
      library = Some [File ''a.jpg'', File ''b.jpg'', File ''c.jpg'', Dir ''Gallery'', File ''notes.txt''],
      gallery = Some [File ''c.jpg'', File ''d.jpg''],
      operation_lock = False,
      operation_cancelled = False,
      shutdown_after = None,
      clock_reads = 0\<rparr>"

text \<open>
  The same machine running Windows; a library of two photos whose cached dates are
  equal and whose names differ in the case of a letter; and a library of photos none of
  which has been viewed, for a listing \<open>es\<close> of the directory.
\<close>

definition windows_env :: env where
  "windows_env = example_env\<lparr>os_name_nt := True\<rparr>"

definition tied_state :: state where
  "tied_state =
     example_state\<lparr>viewed_photos := {},
                   date_cache := [''a.jpg'' \<mapsto> 5, ''B.jpg'' \<mapsto> 5],
                   library := Some [File ''a.jpg'', File ''B.jpg'']\<rparr>"

definition fresh_state :: "entry list \<Rightarrow> state" where
  "fresh_state es = example_state\<lparr>viewed_photos := {}, library := Some es\<rparr>"

text \<open>The example machine when the gallery copy of \<^verbatim>\<open>c.jpg\<close> cannot be deleted.\<close>

definition locked_env :: env where
  "locked_env = example_env\<lparr>unlink_raises := (\<lambda>p. p = ''c.jpg'')\<rparr>"

section \<open>Date resolver: proofs\<close>

lemma exif_lookup_Some:
  "exif_lookup e exif tags = Inr (Some t) \<Longrightarrow>
     \<exists>tag v. tag \<in> set tags \<and> map_of exif tag = Some v \<and> strptime_timestamp e v = Some t"
  by (induction tags) (auto split: option.splits if_splits)

lemma read_exif_date_Some:
  "read_exif_date e p = Some t \<Longrightarrow>
     exif_available e \<and>
     (\<exists>exif tag v. image_exif e p = Some exif \<and> tag \<in> {36867, 36868, 306} \<and>
        map_of exif tag = Some v \<and> strptime_timestamp e v = Some t)"
  unfolding read_exif_date_def
  by (auto split: if_splits option.splits sum.splits dest!: exif_lookup_Some)

text \<open>
  Claim C6. The date resolver returns a timestamp for every path and every behaviour
  of the environment: when the embedded metadata give a date (one of the tags 36867,
  36868, 306 holds a value that parses as \<^verbatim>\<open>YYYY:MM:DD HH:MM:SS\<close>) it is that date;
  otherwise, when \<^verbatim>\<open>stat\<close> succeeds, it is the creation time if the platform has one,
  else the change time on Windows, else the modification time; and when the body raises,
  it is the reading of the clock.
\<close>

theorem date_resolver_total:
  "(\<forall>t. read_exif_date e p = Some t \<longrightarrow>
        calculate_photo_date e s p = (t, s) \<and> exif_available e \<and>
        (\<exists>exif tag v. image_exif e p = Some exif \<and> tag \<in> {36867, 36868, 306} \<and>
           map_of exif tag = Some v \<and> strptime_timestamp e v = Some t)) \<and>
   (\<forall>st. read_exif_date e p = None \<and> stat e p = Some st \<longrightarrow>
        calculate_photo_date e s p =
          (case st_birthtime st of
             Some b \<Rightarrow> b
           | None \<Rightarrow> if os_name_nt e then st_ctime st else st_mtime st, s)) \<and>
   (read_exif_date e p = None \<and> stat e p = None \<longrightarrow>
        calculate_photo_date e s p =
          (clock e (clock_reads s), s\<lparr>clock_reads := Suc (clock_reads s)\<rparr>)) \<and>
   (\<forall>err. calculate_photo_date_try e p = Inl err \<longrightarrow>
        fst (calculate_photo_date e s p) = clock e (clock_reads s))"
proof (intro conjI allI impI)
  fix t assume h: "read_exif_date e p = Some t"
  then show "calculate_photo_date e s p = (t, s)"
    by (simp add: calculate_photo_date_def calculate_photo_date_try_def)
  from read_exif_date_Some[OF h] show "exif_available e" by simp
  from read_exif_date_Some[OF h]
  show "\<exists>exif tag v. image_exif e p = Some exif \<and> tag \<in> {36867, 36868, 306} \<and>
           map_of exif tag = Some v \<and> strptime_timestamp e v = Some t" by simp
next
  fix st assume "read_exif_date e p = None \<and> stat e p = Some st"
  then show "calculate_photo_date e s p =
          (case st_birthtime st of
             Some b \<Rightarrow> b
           | None \<Rightarrow> if os_name_nt e then st_ctime st else st_mtime st, s)"
    by (simp add: calculate_photo_date_def calculate_photo_date_try_def stat_date_def)
next
  assume "read_exif_date e p = None \<and> stat e p = None"
  then show "calculate_photo_date e s p =
          (clock e (clock_reads s), s\<lparr>clock_reads := Suc (clock_reads s)\<rparr>)"
    by (simp add: calculate_photo_date_def calculate_photo_date_try_def stat_date_def)
next
  fix err assume "calculate_photo_date_try e p = Inl err"
  then show "fst (calculate_photo_date e s p) = clock e (clock_reads s)"
    by (simp add: calculate_photo_date_def)
qed

lemma example_read_exif_a: "read_exif_date example_env ''a.jpg'' = Some 1577934245"
  by (simp add: read_exif_date_def example_env_def)

lemma example_read_exif_other: "p \<noteq> ''a.jpg'' \<Longrightarrow> read_exif_date example_env p = None"
  by (simp add: read_exif_date_def example_env_def)

theorem date_resolver_total_witness:
  "calculate_photo_date example_env example_state ''a.jpg'' = (1577934245, example_state) \<and>
   calculate_photo_date example_env example_state ''b.jpg'' = (10, example_state) \<and>
   calculate_photo_date example_env example_state ''c.jpg'' =
     (1000, example_state\<lparr>clock_reads := 1\<rparr>)"
proof -
  have b: "stat example_env ''b.jpg'' = Some \<lparr>st_birthtime = None, st_ctime = 20, st_mtime = 10\<rparr>"
    and c: "stat example_env ''c.jpg'' = None"
    and nt: "\<not> os_name_nt example_env"
    and ck: "clock example_env 0 = 1000"
    and cr: "clock_reads example_state = 0"
    by (simp_all add: example_env_def example_state_def)
  show ?thesis
    using date_resolver_total[of example_env "''a.jpg''" example_state]
      date_resolver_total[of example_env "''b.jpg''" example_state]
      date_resolver_total[of example_env "''c.jpg''" example_state]
    by (simp add: example_read_exif_a example_read_exif_other b c nt ck cr)
qed

section \<open>View-history store: proofs\<close>

lemma py_set_hashable:
  "list_all (\<lambda>x. hashable x \<noteq> None) xs \<Longrightarrow>
     py_set xs = Inr {k. \<exists>x\<in>set xs. hashable x = Some k}"
proof (induction xs)
  case Nil
  then show ?case by simp
next
  case (Cons x xs)
  then obtain k where k: "hashable x = Some k" by auto
  from Cons have "py_set xs = Inr {k. \<exists>x\<in>set xs. hashable x = Some k}" by simp
  with k show ?case by auto
qed

lemma py_set_unhashable:
  "\<not> list_all (\<lambda>x. hashable x \<noteq> None) xs \<Longrightarrow> py_set xs = Inl TypeError"
  by (induction xs) (auto split: option.splits sum.splits)

lemma py_set_error: "py_set xs = Inl err \<Longrightarrow> err = TypeError"
  by (induction xs arbitrary: err) (auto split: option.splits sum.splits)

text \<open>
  Claim C8, amended. Loading the view history yields a set on every record: the empty
  set when the record is missing, unreadable or corrupt or its payload is not a list;
  the set of the elements when the payload is a list of scalars (in particular a list
  of names); and the empty set again when the list holds a nested list or an object,
  on which \<^verbatim>\<open>set\<close> raises.
\<close>

theorem load_viewed_photos_total:
  "load_viewed_photos Missing = {} \<and>
   load_viewed_photos Unreadable = {} \<and>
   load_viewed_photos Corrupt = {} \<and>
   ((\<forall>ys. data \<noteq> JList ys) \<longrightarrow> load_viewed_photos (Payload data) = {}) \<and>
   (list_all (\<lambda>x. hashable x \<noteq> None) xs \<longrightarrow>
      load_viewed_photos (Payload (JList xs)) = {k. \<exists>x\<in>set xs. hashable x = Some k}) \<and>
   load_viewed_photos (Payload (JList (map JStr names))) = KStr ` set names \<and>
   (\<not> list_all (\<lambda>x. hashable x \<noteq> None) xs \<longrightarrow>
      load_viewed_photos (Payload (JList xs)) = {})"
proof (intro conjI impI)
  show "load_viewed_photos Missing = {}" "load_viewed_photos Unreadable = {}"
    "load_viewed_photos Corrupt = {}"
    by (simp_all add: load_viewed_photos_def load_viewed_photos_try_def)
next
  assume "\<forall>ys. data \<noteq> JList ys"
  then show "load_viewed_photos (Payload data) = {}"
    by (cases data) (simp_all add: load_viewed_photos_def load_viewed_photos_try_def)
next
  assume "list_all (\<lambda>x. hashable x \<noteq> None) xs"
  then show "load_viewed_photos (Payload (JList xs)) = {k. \<exists>x\<in>set xs. hashable x = Some k}"
    by (simp add: load_viewed_photos_def load_viewed_photos_try_def py_set_hashable)
next
  have "list_all (\<lambda>x. hashable x \<noteq> None) (map JStr names)"
    by (simp add: list_all_iff)
  then have "py_set (map JStr names) = Inr {k. \<exists>x\<in>set (map JStr names). hashable x = Some k}"
    by (rule py_set_hashable)
  moreover have "{k. \<exists>x\<in>set (map JStr names). hashable x = Some k} = KStr ` set names"
    by auto
  ultimately show "load_viewed_photos (Payload (JList (map JStr names))) = KStr ` set names"
    by (simp add: load_viewed_photos_def load_viewed_photos_try_def)
next
  assume "\<not> list_all (\<lambda>x. hashable x \<noteq> None) xs"
  then show "load_viewed_photos (Payload (JList xs)) = {}"
    by (simp add: load_viewed_photos_def load_viewed_photos_try_def py_set_unhashable)
qed

theorem load_viewed_photos_total_witness:
  "load_viewed_photos (Payload (JStr ''a.jpg'')) = {} \<and>
   load_viewed_photos (Payload (JList [JStr ''a.jpg'', JNum 7, JBool True])) =
     {KStr ''a.jpg'', KNum 7, KNum 1} \<and>
   load_viewed_photos (Payload (JList (map JStr [''a.jpg'', ''b.jpg'']))) =
     {KStr ''a.jpg'', KStr ''b.jpg''} \<and>
   load_viewed_photos (Payload (JList [JStr ''a.jpg'', JDict []])) = {}"
proof -
  have "{k. \<exists>x\<in>set [JStr ''a.jpg'', JNum 7, JBool True]. hashable x = Some k} =
          {KStr ''a.jpg'', KNum 7, KNum 1}"
    by auto
  then show ?thesis
    using load_viewed_photos_total[of "JStr ''a.jpg''" "[JStr ''a.jpg'', JNum 7, JBool True]"
        "[''a.jpg'', ''b.jpg'']"]
      load_viewed_photos_total[of JNull "[JStr ''a.jpg'', JDict []]" "[]"]
    by simp
qed

text \<open>
  Claim C8 as stated fails on a list with a nested list: \<^verbatim>\<open>a.jpg\<close> is an element of the
  payload and not of the loaded set.
\<close>

theorem load_viewed_photos_list_counterexample:
  "KStr ''a.jpg'' \<notin> load_viewed_photos (Payload (JList [JStr ''a.jpg'', JList [JStr ''b.jpg'']]))"
  by (simp add: load_viewed_photos_def load_viewed_photos_try_def)

section \<open>Date cache store: proofs\<close>

lemma get_photo_date_cached:
  "get_photo_date e s p = (d, s1) \<Longrightarrow> date_cache s1 p = Some d"
  by (auto simp: get_photo_date_def calculate_photo_date_def
      split: option.splits sum.splits prod.splits)

lemma get_photo_date_hit: "date_cache s p = Some d \<Longrightarrow> get_photo_date e s p = (d, s)"
  by (simp add: get_photo_date_def)

lemma save_date_cache_load:
  "cache_writable e \<Longrightarrow> cache_dirty s \<or> load_date_cache (cache_file s) = date_cache s \<Longrightarrow>
     load_date_cache (cache_file (save_date_cache e s)) = date_cache s"
  by (auto simp: save_date_cache_def load_date_cache_def load_date_cache_try_def)

lemma reset_history_fields:
  "\<not> operation_lock s \<Longrightarrow>
     viewed_photos (reset_history e s) = {} \<and>
     date_cache (reset_history e s) = Map.empty \<and>
     log_file (reset_history e s) = (if log_writable e then Payload (JList []) else log_file s) \<and>
     cache_file (reset_history e s) =
       (if cache_writable e then Payload Map.empty else cache_file s) \<and>
     cache_dirty (reset_history e s) = (\<not> cache_writable e)"
  by (simp add: reset_history_def save_viewed_photos_def save_date_cache_def py_list_def Let_def)

text \<open>
  Claim C7. A date stored by \<^verbatim>\<open>get_photo_date\<close> is the date a second call returns,
  without resolving again; a flush that succeeds followed by a load gives the mapping
  back; clearing (as \<^verbatim>\<open>reset_history\<close> does), flushing and loading gives the empty
  mapping; and a flush of a cache that is not dirty changes nothing.
\<close>

theorem date_cache_round_trip:
  "(get_photo_date e s p = (d, s1) \<longrightarrow>
      date_cache s1 p = Some d \<and> get_photo_date e s1 p = (d, s1) \<and>
      (date_cache s p = None \<longrightarrow> cache_dirty s1)) \<and>
   (cache_writable e \<and> (cache_dirty s \<or> load_date_cache (cache_file s) = date_cache s) \<longrightarrow>
      load_date_cache (cache_file (save_date_cache e s)) = date_cache s \<and>
      \<not> cache_dirty (save_date_cache e s)) \<and>
   (cache_writable e \<and> \<not> operation_lock s \<longrightarrow>
      date_cache (reset_history e s) = Map.empty \<and>
      load_date_cache (cache_file (reset_history e s)) = Map.empty) \<and>
   (\<not> cache_dirty s \<longrightarrow> save_date_cache e s = s)"
proof (intro conjI impI)
  assume h: "get_photo_date e s p = (d, s1)"
  then show c: "date_cache s1 p = Some d" by (rule get_photo_date_cached)
  then show "get_photo_date e s1 p = (d, s1)" by (rule get_photo_date_hit)
  assume "date_cache s p = None"
  with h show "cache_dirty s1"
    by (auto simp: get_photo_date_def split: prod.splits)
next
  assume h: "cache_writable e \<and> (cache_dirty s \<or> load_date_cache (cache_file s) = date_cache s)"
  then show "load_date_cache (cache_file (save_date_cache e s)) = date_cache s"
    by (simp add: save_date_cache_load)
  from h show "\<not> cache_dirty (save_date_cache e s)"
    by (simp add: save_date_cache_def)
next
  assume h: "cache_writable e \<and> \<not> operation_lock s"
  then show "date_cache (reset_history e s) = Map.empty"
    by (simp add: reset_history_fields)
  from h show "load_date_cache (cache_file (reset_history e s)) = Map.empty"
    by (simp add: reset_history_fields load_date_cache_def load_date_cache_try_def)
next
  assume "\<not> cache_dirty s"
  then show "save_date_cache e s = s" by (simp add: save_date_cache_def)
qed

lemma example_get_b:
  "get_photo_date example_env example_state ''b.jpg'' =
     (10, example_state\<lparr>date_cache := [''b.jpg'' \<mapsto> 10], cache_dirty := True\<rparr>)"
  by (simp add: get_photo_date_def calculate_photo_date_def calculate_photo_date_try_def
      read_exif_date_def stat_date_def example_env_def example_state_def)

theorem date_cache_round_trip_witness:
  "get_photo_date example_env
      (example_state\<lparr>date_cache := [''b.jpg'' \<mapsto> 10], cache_dirty := True\<rparr>) ''b.jpg'' =
     (10, example_state\<lparr>date_cache := [''b.jpg'' \<mapsto> 10], cache_dirty := True\<rparr>) \<and>
   load_date_cache (cache_file (save_date_cache example_env
      (example_state\<lparr>date_cache := [''b.jpg'' \<mapsto> 10], cache_dirty := True\<rparr>))) =
     [''b.jpg'' \<mapsto> 10] \<and>
   load_date_cache (cache_file (reset_history example_env
      (example_state\<lparr>date_cache := [''b.jpg'' \<mapsto> 10], cache_dirty := True\<rparr>))) = Map.empty \<and>
   save_date_cache example_env example_state = example_state"
proof -
  have w: "cache_writable example_env" by (simp add: example_env_def)
  have l: "\<not> operation_lock example_state" and nd: "\<not> cache_dirty example_state"
    by (simp_all add: example_state_def)
  show ?thesis
    using date_cache_round_trip[of example_env example_state "''b.jpg''" 10
        "example_state\<lparr>date_cache := [''b.jpg'' \<mapsto> 10], cache_dirty := True\<rparr>"]
      date_cache_round_trip[of example_env
        "example_state\<lparr>date_cache := [''b.jpg'' \<mapsto> 10], cache_dirty := True\<rparr>" "''b.jpg''" 10
        "example_state\<lparr>date_cache := [''b.jpg'' \<mapsto> 10], cache_dirty := True\<rparr>"]
    by (simp add: example_get_b w l nd)
qed

text \<open>
  Claim C10. Unless an operation holds the lock, \<^verbatim>\<open>reset_history\<close> empties the view
  history and the date cache and rewrites both records at once: the cache record holds
  the empty mapping and the cache is clean again when the write succeeds, and stays
  dirty when it fails. The next request for the date of any photo resolves it anew.
  While an operation holds the lock the command changes nothing.
\<close>

theorem reset_history_clears_cache:
  "(\<not> operation_lock s \<longrightarrow>
      viewed_photos (reset_history e s) = {} \<and>
      date_cache (reset_history e s) = Map.empty \<and>
      log_file (reset_history e s) = (if log_writable e then Payload (JList []) else log_file s) \<and>
      cache_file (reset_history e s) =
        (if cache_writable e then Payload Map.empty else cache_file s) \<and>
      cache_dirty (reset_history e s) = (\<not> cache_writable e) \<and>
      fst (get_photo_date e (reset_history e s) p) =
        fst (calculate_photo_date e (reset_history e s) p)) \<and>
   (operation_lock s \<longrightarrow> reset_history e s = s)"
proof (intro conjI impI)
  assume h: "\<not> operation_lock s"
  note f = reset_history_fields[OF h, of e]
  from f show "viewed_photos (reset_history e s) = {}" by simp
  from f show "date_cache (reset_history e s) = Map.empty" by simp
  from f show "log_file (reset_history e s) =
      (if log_writable e then Payload (JList []) else log_file s)" by simp
  from f show "cache_file (reset_history e s) =
      (if cache_writable e then Payload Map.empty else cache_file s)" by simp
  from f show "cache_dirty (reset_history e s) = (\<not> cache_writable e)" by simp
  from f have "date_cache (reset_history e s) p = None" by simp
  then show "fst (get_photo_date e (reset_history e s) p) =
      fst (calculate_photo_date e (reset_history e s) p)"
    by (simp add: get_photo_date_def split: prod.splits)
next
  assume "operation_lock s"
  then show "reset_history e s = s" by (simp add: reset_history_def)
qed

theorem reset_history_clears_cache_witness:
  "viewed_photos (reset_history example_env
      (example_state\<lparr>date_cache := [''b.jpg'' \<mapsto> 10]\<rparr>)) = {} \<and>
   date_cache (reset_history example_env
      (example_state\<lparr>date_cache := [''b.jpg'' \<mapsto> 10]\<rparr>)) = Map.empty \<and>
   cache_file (reset_history example_env
      (example_state\<lparr>date_cache := [''b.jpg'' \<mapsto> 10]\<rparr>)) = Payload Map.empty \<and>
   log_file (reset_history example_env
      (example_state\<lparr>date_cache := [''b.jpg'' \<mapsto> 10]\<rparr>)) = Payload (JList []) \<and>
   reset_history example_env (example_state\<lparr>operation_lock := True\<rparr>) =
     example_state\<lparr>operation_lock := True\<rparr>"
proof -
  have w: "cache_writable example_env" "log_writable example_env"
    by (simp_all add: example_env_def)
  have l: "\<not> operation_lock example_state"
    by (simp add: example_state_def)
  show ?thesis
    using reset_history_clears_cache[of "example_state\<lparr>date_cache := [''b.jpg'' \<mapsto> 10]\<rparr>"
        example_env "''b.jpg''"]
      reset_history_clears_cache[of "example_state\<lparr>operation_lock := True\<rparr>" example_env "''b.jpg''"]
    by (simp add: w l)
qed

section \<open>Schedule evaluator: proofs\<close>

lemma interval_us_cases:
  "interval_us n = DAY_US div n \<or> interval_us n = Suc (DAY_US div n)"
  by (simp add: interval_us_def Let_def)

lemma interval_us_rounds:
  assumes "0 < n"
  shows "2 * DAY_US \<le> 2 * (interval_us n * n) + n \<and> 2 * (interval_us n * n) \<le> 2 * DAY_US + n"
proof -
  define D where "D = DAY_US"
  define q r where "q = D div n" and "r = D mod n"
  define P where "P = q * n"
  have d: "D = P + r" by (simp add: q_def r_def P_def)
  have r: "r < n" using assms by (simp add: r_def)
  have s: "Suc q * n = P + n" by (simp add: P_def)
  have c: "interval_us n = q \<or> interval_us n = Suc q"
    using interval_us_cases[of n] by (simp add: q_def D_def)
  have lo: "2 * r < n \<Longrightarrow> interval_us n = q"
    by (simp add: interval_us_def Let_def q_def r_def D_def)
  have hi: "n < 2 * r \<Longrightarrow> interval_us n = Suc q"
    by (simp add: interval_us_def Let_def q_def r_def D_def)
  have "2 * D \<le> 2 * (interval_us n * n) + n \<and> 2 * (interval_us n * n) \<le> 2 * D + n"
  proof (cases "2 * r < n")
    case True
    with lo have "interval_us n * n = P" by (simp add: P_def)
    with d r True show ?thesis by linarith
  next
    case False
    show ?thesis
    proof (cases "n < 2 * r")
      case True
      with hi s have "interval_us n * n = P + n" by simp
      with d r True show ?thesis by linarith
    next
      case F2: False
      with False have e: "2 * r = n" by linarith
      from c s have "interval_us n * n = P \<or> interval_us n * n = P + n"
        by (auto simp: P_def)
      with d r e show ?thesis by linarith
    qed
  qed
  then show ?thesis by (simp only: D_def)
qed

lemma interval_us_exact: "n dvd DAY_US \<Longrightarrow> 0 < n \<Longrightarrow> interval_us n * n = DAY_US"
  by (auto simp: interval_us_def Let_def)

lemma normalize_add_us:
  "(add_us (now\<lparr>us_of_day := b\<rparr>) d)\<lparr>day := day now\<rparr> = now\<lparr>us_of_day := (b + d) mod DAY_US\<rparr>"
  by (simp add: add_us_def)

lemma get_switch_times_many:
  assumes v: "strptime_HM mt = Some (h, m)" and n: "1 < n" "n \<le> 100"
  shows "get_switch_times mt (Some n) now =
           sort_key (\<lambda>t. (day t, us_of_day t))
             (map (\<lambda>i. now\<lparr>us_of_day := ((h * 60 + m) * 60 * 1000000 + interval_us (nat n) * i) mod DAY_US\<rparr>)
                [0..<nat n])"
proof -
  have a: "\<not> (n \<le> 0 \<or> 100 < n)" "n \<noteq> 1" using n by auto
  show ?thesis
    unfolding get_switch_times_def validate_time_format_def Let_def
    by (simp only: v a option.simps if_False if_True not_False_eq_True option.sel prod.case
        not_not map_map o_def normalize_add_us simp_thms)
qed


lemma digit_val_simps:
  "digit_val CHR ''0'' = Some 0" "digit_val CHR ''1'' = Some 1" "digit_val CHR ''2'' = Some 2"
  "digit_val CHR ''5'' = Some 5" "digit_val CHR ''9'' = Some 9"
  by (simp_all add: digit_val_def less_eq_char_def)

lemma strptime_2115: "strptime_HM ''21:15'' = Some (21, 15)"
  by (simp add: strptime_HM_def digits2_def digit_val_simps)

lemma interval_us_2: "interval_us 2 = 43200000000"
  by (simp add: interval_us_def DAY_US_def Let_def)

lemma example_2115:
  "get_switch_times ''21:15'' (Some 2) now =
     [now\<lparr>us_of_day := 33300000000\<rparr>, now\<lparr>us_of_day := 76500000000\<rparr>]"
proof -
  have u: "[0..<2] = [0, Suc 0]" by (simp add: numeral_2_eq_2)
  have m1: "(119700000000::nat) mod DAY_US = 33300000000"
    and m0: "(76500000000::nat) mod DAY_US = 76500000000"
    by (simp_all add: DAY_US_def)
  show ?thesis
    by (simp add: get_switch_times_many[OF strptime_2115] interval_us_2 u m1 m0 less_eq_prod_def)
qed


lemma get_switch_times_invalid:
  "\<not> validate_time_format mt \<Longrightarrow> get_switch_times mt sw now = []"
  by (simp add: get_switch_times_def)

lemma get_switch_times_range:
  "sw = None \<or> (\<exists>n. sw = Some n \<and> (n < 1 \<or> 100 < n)) \<Longrightarrow> get_switch_times mt sw now = []"
  by (auto simp: get_switch_times_def)

lemma get_switch_times_one:
  "strptime_HM mt = Some (h, m) \<Longrightarrow>
     get_switch_times mt (Some 1) now = [now\<lparr>us_of_day := (h * 60 + m) * 60 * 1000000\<rparr>]"
  by (simp add: get_switch_times_def validate_time_format_def)

text \<open>
  Claim C4. \<^verbatim>\<open>get_switch_times\<close> returns the empty list when the time text is not
  \<^verbatim>\<open>HH:MM\<close>, when the switch count is not a number and when it lies outside 1 .. 100.
  For one switch it returns the base time on today's date. For \<open>n > 1\<close> switches it
  returns \<open>n\<close> times, all on today's date and in ascending order, which are the times
  \<open>base + i * interval\<close> for \<open>i < n\<close> taken modulo one day; the interval is the
  \<^verbatim>\<open>timedelta\<close> of \<open>24/n\<close> hours, that is a day divided by \<open>n\<close>, exact when \<open>n\<close> divides
  the microseconds of a day and rounded to the nearest microsecond otherwise. With the
  base 21:15 and two switches the times are 09:15 and 21:15.
\<close>

theorem get_switch_times_schedule:
  "(\<not> validate_time_format mt \<longrightarrow> get_switch_times mt sw now = []) \<and>
   (sw = None \<or> (\<exists>c. sw = Some c \<and> (c < 1 \<or> 100 < c)) \<longrightarrow> get_switch_times mt sw now = []) \<and>
   (strptime_HM mt = Some (h, m) \<longrightarrow>
      get_switch_times mt (Some 1) now = [now\<lparr>us_of_day := (h * 60 + m) * 60 * 1000000\<rparr>]) \<and>
   (strptime_HM mt = Some (h, m) \<and> 1 < n \<and> n \<le> 100 \<longrightarrow>
      length (get_switch_times mt (Some n) now) = nat n \<and>
      sorted (map us_of_day (get_switch_times mt (Some n) now)) \<and>
      (\<forall>t \<in> set (get_switch_times mt (Some n) now). day t = day now) \<and>
      mset (get_switch_times mt (Some n) now) =
        mset (map (\<lambda>i. now\<lparr>us_of_day :=
                    ((h * 60 + m) * 60 * 1000000 + interval_us (nat n) * i) mod DAY_US\<rparr>)
               [0..<nat n])) \<and>
   (0 < k \<longrightarrow>
      2 * DAY_US \<le> 2 * (interval_us k * k) + k \<and> 2 * (interval_us k * k) \<le> 2 * DAY_US + k \<and>
      (k dvd DAY_US \<longrightarrow> interval_us k * k = DAY_US)) \<and>
   get_switch_times ''21:15'' (Some 2) now =
     [now\<lparr>us_of_day := 33300000000\<rparr>, now\<lparr>us_of_day := 76500000000\<rparr>]"
proof (intro conjI impI)
  assume "\<not> validate_time_format mt"
  then show "get_switch_times mt sw now = []" by (rule get_switch_times_invalid)
next
  assume "sw = None \<or> (\<exists>c. sw = Some c \<and> (c < 1 \<or> 100 < c))"
  then show "get_switch_times mt sw now = []" by (rule get_switch_times_range)
next
  assume "strptime_HM mt = Some (h, m)"
  then show "get_switch_times mt (Some 1) now = [now\<lparr>us_of_day := (h * 60 + m) * 60 * 1000000\<rparr>]"
    by (rule get_switch_times_one)
next
  assume a: "strptime_HM mt = Some (h, m) \<and> 1 < n \<and> n \<le> 100"
  let ?raw = "map (\<lambda>i. now\<lparr>us_of_day :=
                       ((h * 60 + m) * 60 * 1000000 + interval_us (nat n) * i) mod DAY_US\<rparr>)
                  [0..<nat n]"
  have eq: "get_switch_times mt (Some n) now = sort_key (\<lambda>t. (day t, us_of_day t)) ?raw"
    using get_switch_times_many[of mt h m n now] a by simp
  show "length (get_switch_times mt (Some n) now) = nat n"
    by (simp only: eq length_sort length_map length_upt diff_zero)
  show "mset (get_switch_times mt (Some n) now) = mset ?raw"
    by (simp only: eq mset_sort)
  have d: "\<forall>t \<in> set (get_switch_times mt (Some n) now). day t = day now"
  proof
    fix t assume "t \<in> set (get_switch_times mt (Some n) now)"
    then have "t \<in> set ?raw" by (simp only: eq set_sort)
    then show "day t = day now" by auto
  qed
  then show "\<forall>t \<in> set (get_switch_times mt (Some n) now). day t = day now" .
  have s: "sorted (map (\<lambda>t. (day t, us_of_day t)) (get_switch_times mt (Some n) now))"
    by (simp only: eq sorted_sort_key)
  have "map (\<lambda>t. (day t, us_of_day t)) (get_switch_times mt (Some n) now) =
        map (\<lambda>t. (day now, us_of_day t)) (get_switch_times mt (Some n) now)"
    using d by (simp cong: map_cong)
  with s have "sorted (map (Pair (day now)) (map us_of_day (get_switch_times mt (Some n) now)))"
    by (simp add: o_def)
  then show "sorted (map us_of_day (get_switch_times mt (Some n) now))"
    by (simp add: sorted_map less_eq_prod_def sorted_wrt_iff_nth_less)
next
  assume k: "0 < k"
  from interval_us_rounds[OF k]
  show "2 * DAY_US \<le> 2 * (interval_us k * k) + k" "2 * (interval_us k * k) \<le> 2 * DAY_US + k"
    by simp_all
  assume "k dvd DAY_US"
  then show "interval_us k * k = DAY_US" using k by (rule interval_us_exact)
next
  show "get_switch_times ''21:15'' (Some 2) now =
     [now\<lparr>us_of_day := 33300000000\<rparr>, now\<lparr>us_of_day := 76500000000\<rparr>]"
    by (rule example_2115)
qed

lemma strptime_2400: "strptime_HM ''24:00'' = None"
  by (simp add: strptime_HM_def digits2_def digit_val_def less_eq_char_def)

theorem get_switch_times_schedule_witness:
  "get_switch_times ''24:00'' (Some 2) \<lparr>day = 739000, us_of_day = 5\<rparr> = [] \<and>
   get_switch_times ''21:15'' (Some 101) \<lparr>day = 739000, us_of_day = 5\<rparr> = [] \<and>
   get_switch_times ''21:15'' (Some 1) \<lparr>day = 739000, us_of_day = 5\<rparr> =
     [\<lparr>day = 739000, us_of_day = 76500000000\<rparr>] \<and>
   length (get_switch_times ''21:15'' (Some 7) \<lparr>day = 739000, us_of_day = 5\<rparr>) = 7 \<and>
   sorted (map us_of_day (get_switch_times ''21:15'' (Some 7) \<lparr>day = 739000, us_of_day = 5\<rparr>)) \<and>
   interval_us 3 * 3 = DAY_US \<and>
   get_switch_times ''21:15'' (Some 2) \<lparr>day = 739000, us_of_day = 5\<rparr> =
     [\<lparr>day = 739000, us_of_day = 33300000000\<rparr>, \<lparr>day = 739000, us_of_day = 76500000000\<rparr>]"
proof -
  have d: "3 dvd DAY_US" by (simp add: DAY_US_def)
  show ?thesis
    using get_switch_times_schedule[of "''24:00''" "Some 2" "\<lparr>day = 739000, us_of_day = 5\<rparr>" 0 0 2 3]
      get_switch_times_schedule[of "''21:15''" "Some 101" "\<lparr>day = 739000, us_of_day = 5\<rparr>" 21 15 7 3]
    by (simp add: strptime_2400 strptime_2115 validate_time_format_def d)
qed

section \<open>Photo selector: proofs\<close>

lemma is_set_quiet: "quiet s \<Longrightarrow> is_set s = (False, s)"
  by (simp add: quiet_def is_set_def)

lemma scan_frame_refl: "scan_frame s s"
  by (simp add: scan_frame_def)

lemma scan_frame_trans: "scan_frame s t \<Longrightarrow> scan_frame t u \<Longrightarrow> scan_frame s u"
  by (simp add: scan_frame_def)

lemma scan_frame_quiet: "scan_frame s t \<Longrightarrow> quiet s \<Longrightarrow> quiet t"
  by (simp add: scan_frame_def quiet_def)

lemma cache_grows_refl: "cache_grows s s"
  by (simp add: cache_grows_def)

lemma cache_grows_trans: "cache_grows s t \<Longrightarrow> cache_grows t u \<Longrightarrow> cache_grows s u"
  by (simp add: cache_grows_def)

lemma save_date_cache_frame:
  "scan_frame s (save_date_cache e s) \<and> date_cache (save_date_cache e s) = date_cache s"
  by (simp add: save_date_cache_def scan_frame_def)

lemma get_photo_date_frame:
  assumes "get_photo_date e s p = (d, t)"
  shows "scan_frame s t \<and> cache_grows s t \<and> date_cache t p = Some d"
  using assms
  by (auto simp: get_photo_date_def calculate_photo_date_def scan_frame_def cache_grows_def
      split: option.splits sum.splits prod.splits)

text \<open>One step of the first pass on an unviewed photo.\<close>

lemma photo_with_date_gen_Nil: "photo_with_date_gen e s k [] = ([], k, s)"
  by simp

lemma photo_with_date_gen_viewed:
  "quiet s \<Longrightarrow> KStr p \<in> viewed_photos s \<Longrightarrow>
     photo_with_date_gen e s k (p # ps) = photo_with_date_gen e s k ps"
  by (simp add: is_set_quiet)

lemma photo_with_date_gen_unviewed:
  assumes "quiet s" "KStr p \<notin> viewed_photos s"
    and "get_photo_date e (if Suc k mod 5000 = 0 then save_date_cache e s else s) p = (d, t)"
    and "photo_with_date_gen e t (Suc k) ps = (ys, n, u)"
  shows "photo_with_date_gen e s k (p # ps) = ((d, p) # ys, n, u)"
  using assms by (simp add: is_set_quiet)

lemma scan_step_frame:
  assumes "get_photo_date e (if Suc k mod 5000 = 0 then save_date_cache e s else s) p = (d, t)"
  shows "scan_frame s t \<and> cache_grows s t \<and> date_cache t p = Some d"
proof -
  let ?s3 = "if Suc k mod 5000 = 0 then save_date_cache e s else s"
  have a: "scan_frame s ?s3" and b: "date_cache ?s3 = date_cache s"
    using save_date_cache_frame[of s e] by (simp_all add: scan_frame_refl)
  from get_photo_date_frame[OF assms]
  have c: "scan_frame ?s3 t" "cache_grows ?s3 t" "date_cache t p = Some d" by simp_all
  from b c(2) have "cache_grows s t" by (simp add: cache_grows_def)
  with a c show ?thesis by (blast intro: scan_frame_trans)
qed

lemma photo_with_date_gen_quiet:
  "quiet s \<Longrightarrow> photo_with_date_gen e s k ps = (dated, n, t) \<Longrightarrow>
     map snd dated = filter (\<lambda>p. KStr p \<notin> viewed_photos s) ps \<and>
     scan_frame s t \<and> cache_grows s t \<and>
     (\<forall>x \<in> set dated. date_cache t (snd x) = Some (fst x))"
proof (induction ps arbitrary: s k dated n t)
  case Nil
  then show ?case by (simp add: scan_frame_refl cache_grows_refl)
next
  case (Cons p ps)
  show ?case
  proof (cases "KStr p \<in> viewed_photos s")
    case True
    with Cons.prems have "photo_with_date_gen e s k ps = (dated, n, t)"
      by (simp only: photo_with_date_gen_viewed)
    from Cons.IH[OF Cons.prems(1) this] True show ?thesis by simp
  next
    case False
    obtain d s4 where g:
      "get_photo_date e (if Suc k mod 5000 = 0 then save_date_cache e s else s) p = (d, s4)"
      by (cases "get_photo_date e (if Suc k mod 5000 = 0 then save_date_cache e s else s) p")
    obtain ys m u where r: "photo_with_date_gen e s4 (Suc k) ps = (ys, m, u)"
      by (cases "photo_with_date_gen e s4 (Suc k) ps")
    from scan_step_frame[OF g] have f: "scan_frame s s4" "cache_grows s s4" "date_cache s4 p = Some d"
      by simp_all
    from f(1) Cons.prems(1) have q4: "quiet s4" by (rule scan_frame_quiet)
    from Cons.IH[OF q4 r]
    have ih: "map snd ys = filter (\<lambda>p. KStr p \<notin> viewed_photos s4) ps"
      "scan_frame s4 u" "cache_grows s4 u" "\<forall>x \<in> set ys. date_cache u (snd x) = Some (fst x)"
      by simp_all
    from photo_with_date_gen_unviewed[OF Cons.prems(1) False g r] Cons.prems(2)
    have e: "dated = (d, p) # ys" "n = m" "t = u" by simp_all
    have v: "viewed_photos s4 = viewed_photos s" using f(1) by (simp add: scan_frame_def)
    have "date_cache u p = Some d" using f(3) ih(3) by (simp add: cache_grows_def)
    with e ih f v False show ?thesis
      by (auto intro: scan_frame_trans cache_grows_trans)
  qed
qed

lemma all_photos_with_date_step:
  assumes "quiet s" "get_photo_date e s p = (d, t)"
    and "all_photos_with_date e t (Suc k) ps = (ys, n, u)"
  shows "all_photos_with_date e s k (p # ps) = ((d, p) # ys, n, u)"
  using assms by (simp add: is_set_quiet)

lemma all_photos_with_date_quiet:
  "quiet s \<Longrightarrow> all_photos_with_date e s k ps = (dated, n, t) \<Longrightarrow>
     map snd dated = ps \<and> scan_frame s t \<and> cache_grows s t \<and>
     (\<forall>x \<in> set dated. date_cache t (snd x) = Some (fst x))"
proof (induction ps arbitrary: s k dated n t)
  case Nil
  then show ?case by (simp add: scan_frame_refl cache_grows_refl)
next
  case (Cons p ps)
  obtain d s2 where g: "get_photo_date e s p = (d, s2)"
    by (cases "get_photo_date e s p")
  obtain ys m u where r: "all_photos_with_date e s2 (Suc k) ps = (ys, m, u)"
    by (cases "all_photos_with_date e s2 (Suc k) ps")
  from get_photo_date_frame[OF g]
  have f: "scan_frame s s2" "cache_grows s s2" "date_cache s2 p = Some d" by simp_all
  from f(1) Cons.prems(1) have q2: "quiet s2" by (rule scan_frame_quiet)
  from Cons.IH[OF q2 r]
  have ih: "map snd ys = ps" "scan_frame s2 u" "cache_grows s2 u"
    "\<forall>x \<in> set ys. date_cache u (snd x) = Some (fst x)"
    by simp_all
  from all_photos_with_date_step[OF Cons.prems(1) g r] Cons.prems(2)
  have e: "dated = (d, p) # ys" "n = m" "t = u" by simp_all
  have "date_cache u p = Some d" using f(3) ih(3) by (simp add: cache_grows_def)
  with e ih f show ?case
    by (auto intro: scan_frame_trans cache_grows_trans)
qed

lemma unviewed_photos_quiet:
  "quiet s \<Longrightarrow> unviewed_photos s ps = (filter (\<lambda>p. KStr p \<notin> viewed_photos s) ps, s)"
  by (induction ps) (simp_all add: is_set_quiet)

lemma random_sample_length:
  "k \<le> length pool \<Longrightarrow> length (random_sample r i pool k) = k"
proof (induction k arbitrary: i pool)
  case 0
  then show ?case by simp
next
  case (Suc k)
  then have ne: "pool \<noteq> []" by auto
  let ?j = "r i mod length pool"
  have j: "?j < length pool" using ne by simp
  then have "length (take ?j pool @ drop (Suc ?j) pool) = length pool - 1"
    by simp
  with Suc.prems have "k \<le> length (take ?j pool @ drop (Suc ?j) pool)" by simp
  from Suc.IH[OF this] ne show ?case by (simp add: Let_def)
qed

lemma set_remove_nth: "set (take j xs @ drop (Suc j) xs) \<subseteq> set xs"
  by (auto dest: in_set_takeD in_set_dropD)

lemma random_sample_subset: "set (random_sample r i pool k) \<subseteq> set pool"
proof (induction k arbitrary: i pool)
  case 0
  then show ?case by simp
next
  case (Suc k)
  show ?case
  proof (cases "pool = []")
    case True
    then show ?thesis by simp
  next
    case False
    let ?j = "r i mod length pool"
    have j: "?j < length pool" using False by simp
    have "set (random_sample r (Suc i) (take ?j pool @ drop (Suc ?j) pool) k) \<subseteq> set pool"
      using Suc.IH[of "Suc i" "take ?j pool @ drop (Suc ?j) pool"] set_remove_nth[of ?j pool]
      by blast
    with False j show ?thesis by (simp add: Let_def)
  qed
qed

lemma distinct_remove_nth:
  assumes "distinct xs" "j < length xs"
  shows "distinct (take j xs @ drop (Suc j) xs) \<and> xs ! j \<notin> set (take j xs @ drop (Suc j) xs)"
proof -
  have "xs = take j xs @ xs ! j # drop (Suc j) xs"
    using assms(2) by (simp add: id_take_nth_drop)
  with assms(1) have "distinct (take j xs @ xs ! j # drop (Suc j) xs)" by simp
  then show ?thesis by auto
qed

lemma random_sample_distinct: "distinct pool \<Longrightarrow> distinct (random_sample r i pool k)"
proof (induction k arbitrary: i pool)
  case 0
  then show ?case by simp
next
  case (Suc k)
  show ?case
  proof (cases "pool = []")
    case True
    then show ?thesis by simp
  next
    case False
    let ?j = "r i mod length pool"
    let ?rest = "take ?j pool @ drop (Suc ?j) pool"
    have j: "?j < length pool" using False by simp
    from distinct_remove_nth[OF Suc.prems j]
    have d: "distinct ?rest" and n: "pool ! ?j \<notin> set ?rest" by simp_all
    from random_sample_subset[of r "Suc i" ?rest k] n
    have "pool ! ?j \<notin> set (random_sample r (Suc i) ?rest k)" by blast
    with Suc.IH[OF d, of "Suc i"] False show ?thesis by (simp add: Let_def)
  qed
qed

lemma reset_viewed_fields:
  "viewed_photos (reset_viewed e s) = {} \<and>
   log_file (reset_viewed e s) = (if log_writable e then Payload (JList []) else log_file s) \<and>
   library (reset_viewed e s) = library s \<and> gallery (reset_viewed e s) = gallery s \<and>
   date_cache (reset_viewed e s) = date_cache s \<and>
   operation_lock (reset_viewed e s) = operation_lock s \<and>
   quiet (reset_viewed e s) = quiet s"
  by (simp add: reset_viewed_def save_viewed_photos_def py_list_def quiet_def)

lemma select_photos_random_quiet:
  assumes "quiet s"
  shows "select_photos e s requested ''Random'' =
     (let cnt = clamp_count requested;
          photos = iter_photos (library s);
          unviewed = filter (\<lambda>p. KStr p \<notin> viewed_photos s) photos
      in if length unviewed < cnt
         then (random_sample (rng e) 0 photos (min cnt (length photos)), reset_viewed e s)
         else (random_sample (rng e) 0 unviewed (min cnt (length unviewed)), s))"
  by (simp add: select_photos_def unviewed_photos_quiet[OF assms] Let_def reset_viewed_fields)

lemma pick_length: "length (pick e cnt mode dated) = min cnt (length dated)"
  by (simp add: pick_def nlargest_def nsmallest_def)

lemma pick_subset: "set (pick e cnt mode dated) \<subseteq> set (map snd dated)"
proof -
  have "set (take cnt (rev (sort_key (rank_key e) (rev dated)))) \<subseteq> set dated"
    "set (take cnt (sort_key (rank_key e) dated)) \<subseteq> set dated"
    using set_take_subset[of cnt "rev (sort_key (rank_key e) (rev dated))"]
      set_take_subset[of cnt "sort_key (rank_key e) dated"]
    by simp_all
  then show ?thesis by (auto simp: pick_def nlargest_def nsmallest_def)
qed

lemma pick_distinct:
  assumes "distinct (map snd dated)"
  shows "distinct (pick e cnt mode dated)"
proof -
  have "mset (map snd (sort_key (rank_key e) dated)) = mset (map snd dated)" by simp
  with assms have d: "distinct (map snd (sort_key (rank_key e) dated))"
    by (metis mset_eq_imp_distinct_iff)
  have "mset (map snd (sort_key (rank_key e) (rev dated))) = mset (map snd dated)" by simp
  with assms have "distinct (map snd (sort_key (rank_key e) (rev dated)))"
    by (metis mset_eq_imp_distinct_iff)
  then have "distinct (map snd (rev (sort_key (rank_key e) (rev dated))))"
    by (simp add: rev_map[symmetric])
  then have "distinct (take cnt (map snd (rev (sort_key (rank_key e) (rev dated)))))"
    by (rule distinct_take)
  moreover from d have "distinct (take cnt (map snd (sort_key (rank_key e) dated)))"
    by (rule distinct_take)
  ultimately show ?thesis by (simp add: pick_def nlargest_def nsmallest_def take_map)
qed

lemma select_photos_dated_quiet:
  assumes q: "quiet s" and m: "mode \<noteq> ''Random''"
    and p1: "photo_with_date_gen e s 0 (iter_photos (library s)) = (dated, n, s1)"
    and p2: "all_photos_with_date e (reset_viewed e (save_date_cache e s1)) 0
               (iter_photos (library s)) = (dated2, n2, s4)"
  shows "select_photos e s requested mode =
     (if length (pick e (clamp_count requested) mode dated) < clamp_count requested
      then (pick e (clamp_count requested) mode dated2, save_date_cache e s4)
      else (pick e (clamp_count requested) mode dated, save_date_cache e s1))"
proof -
  from photo_with_date_gen_quiet[OF q p1] have "scan_frame s s1" by simp
  then have "library s1 = library s" by (simp add: scan_frame_def)
  then have l: "library (reset_viewed e (save_date_cache e s1)) = library s"
    using save_date_cache_frame[of s1 e] by (simp add: reset_viewed_fields scan_frame_def)
  show ?thesis
    unfolding select_photos_def Let_def
    by (simp add: m p1 l p2 pick_def)
qed


lemma select_photos_dated_exhaustion:
  assumes q: "quiet s" and m: "mode \<noteq> ''Random''"
  shows
    "(length (filter (\<lambda>p. KStr p \<notin> viewed_photos s) (iter_photos (library s)))
        < clamp_count requested \<longrightarrow>
       viewed_photos (snd (select_photos e s requested mode)) = {} \<and>
       log_file (snd (select_photos e s requested mode)) =
         (if log_writable e then Payload (JList []) else log_file s) \<and>
       set (fst (select_photos e s requested mode)) \<subseteq> set (iter_photos (library s)) \<and>
       length (fst (select_photos e s requested mode)) =
         min (clamp_count requested) (length (iter_photos (library s)))) \<and>
     (clamp_count requested
        \<le> length (filter (\<lambda>p. KStr p \<notin> viewed_photos s) (iter_photos (library s))) \<longrightarrow>
       viewed_photos (snd (select_photos e s requested mode)) = viewed_photos s \<and>
       log_file (snd (select_photos e s requested mode)) = log_file s \<and>
       set (fst (select_photos e s requested mode))
         \<subseteq> set (filter (\<lambda>p. KStr p \<notin> viewed_photos s) (iter_photos (library s))) \<and>
       length (fst (select_photos e s requested mode)) = clamp_count requested) \<and>
     (distinct (iter_photos (library s)) \<longrightarrow> distinct (fst (select_photos e s requested mode))) \<and>
     library (snd (select_photos e s requested mode)) = library s"
proof -
  let ?photos = "iter_photos (library s)"
  let ?unv = "filter (\<lambda>p. KStr p \<notin> viewed_photos s) ?photos"
  let ?c = "clamp_count requested"
  obtain dated n s1 where p1: "photo_with_date_gen e s 0 ?photos = (dated, n, s1)"
    by (cases "photo_with_date_gen e s 0 ?photos")
  let ?s3 = "reset_viewed e (save_date_cache e s1)"
  obtain dated2 n2 s4 where p2: "all_photos_with_date e ?s3 0 ?photos = (dated2, n2, s4)"
    by (cases "all_photos_with_date e ?s3 0 ?photos")
  note sel = select_photos_dated_quiet[OF q m p1 p2, of requested]
  from photo_with_date_gen_quiet[OF q p1]
  have d1: "map snd dated = ?unv" and f1: "scan_frame s s1" by simp_all
  have f2: "scan_frame s (save_date_cache e s1)"
    using f1 save_date_cache_frame[of s1 e] by (blast intro: scan_frame_trans)
  have q3: "quiet ?s3"
    using scan_frame_quiet[OF f2 q] by (simp add: reset_viewed_fields)
  from all_photos_with_date_quiet[OF q3 p2]
  have d2: "map snd dated2 = ?photos" and f4: "scan_frame ?s3 s4" by simp_all
  have f5: "scan_frame ?s3 (save_date_cache e s4)"
    using f4 save_date_cache_frame[of s4 e] by (blast intro: scan_frame_trans)
  have l1: "length dated = length ?unv" using d1 by (metis length_map)
  have l2: "length dated2 = length ?photos" using d2 by (metis length_map)
  have len1: "length (pick e ?c mode dated) = min ?c (length ?unv)"
    by (simp only: pick_length l1)
  have len2: "length (pick e ?c mode dated2) = min ?c (length ?photos)"
    by (simp only: pick_length l2)
  have sub1: "set (pick e ?c mode dated) \<subseteq> set ?unv"
    using pick_subset[of e ?c mode dated] by (simp only: d1)
  have sub2: "set (pick e ?c mode dated2) \<subseteq> set ?photos"
    using pick_subset[of e ?c mode dated2] by (simp only: d2)
  have v3: "viewed_photos (save_date_cache e s4) = {}"
    "log_file (save_date_cache e s4) = (if log_writable e then Payload (JList []) else log_file s)"
    "library (save_date_cache e s4) = library s"
    using f5 f2 by (simp_all add: scan_frame_def reset_viewed_fields)
  have v1: "viewed_photos (save_date_cache e s1) = viewed_photos s"
    "log_file (save_date_cache e s1) = log_file s"
    "library (save_date_cache e s1) = library s"
    using f2 by (simp_all add: scan_frame_def)
  have low: "length ?unv < ?c \<Longrightarrow>
      select_photos e s requested mode = (pick e ?c mode dated2, save_date_cache e s4)"
    using sel len1 by simp
  have high: "?c \<le> length ?unv \<Longrightarrow>
      select_photos e s requested mode = (pick e ?c mode dated, save_date_cache e s1)"
    using sel len1 by simp
  have dis: "distinct ?photos \<Longrightarrow> distinct (fst (select_photos e s requested mode))"
  proof -
    assume d: "distinct ?photos"
    then have "distinct (map snd dated2)" "distinct (map snd dated)"
      by (simp_all only: d1 d2 distinct_filter)
    then have "distinct (pick e ?c mode dated2)" "distinct (pick e ?c mode dated)"
      by (simp_all only: pick_distinct)
    then show ?thesis
      by (cases "length ?unv < ?c") (simp_all add: low high)
  qed
  have lib: "library (snd (select_photos e s requested mode)) = library s"
    by (cases "length ?unv < ?c") (simp_all add: low high v1 v3)
  show ?thesis
  proof (intro conjI impI)
    assume a: "length ?unv < ?c"
    show "viewed_photos (snd (select_photos e s requested mode)) = {}"
      "log_file (snd (select_photos e s requested mode)) =
         (if log_writable e then Payload (JList []) else log_file s)"
      "set (fst (select_photos e s requested mode)) \<subseteq> set ?photos"
      "length (fst (select_photos e s requested mode)) = min ?c (length ?photos)"
      using low[OF a] v3 sub2 len2 by simp_all
  next
    assume a: "?c \<le> length ?unv"
    show "viewed_photos (snd (select_photos e s requested mode)) = viewed_photos s"
      "log_file (snd (select_photos e s requested mode)) = log_file s"
      "set (fst (select_photos e s requested mode)) \<subseteq> set ?unv"
      "length (fst (select_photos e s requested mode)) = ?c"
      using high[OF a] v1 sub1 len1 a by simp_all
  next
    assume "distinct ?photos"
    then show "distinct (fst (select_photos e s requested mode))" by (rule dis)
  next
    show "library (snd (select_photos e s requested mode)) = library s" by (rule lib)
  qed
qed


lemma select_photos_random_exhaustion:
  assumes q: "quiet s"
  shows
    "(length (filter (\<lambda>p. KStr p \<notin> viewed_photos s) (iter_photos (library s)))
        < clamp_count requested \<longrightarrow>
       viewed_photos (snd (select_photos e s requested ''Random'')) = {} \<and>
       log_file (snd (select_photos e s requested ''Random'')) =
         (if log_writable e then Payload (JList []) else log_file s) \<and>
       set (fst (select_photos e s requested ''Random'')) \<subseteq> set (iter_photos (library s)) \<and>
       length (fst (select_photos e s requested ''Random'')) =
         min (clamp_count requested) (length (iter_photos (library s)))) \<and>
     (clamp_count requested
        \<le> length (filter (\<lambda>p. KStr p \<notin> viewed_photos s) (iter_photos (library s))) \<longrightarrow>
       viewed_photos (snd (select_photos e s requested ''Random'')) = viewed_photos s \<and>
       log_file (snd (select_photos e s requested ''Random'')) = log_file s \<and>
       set (fst (select_photos e s requested ''Random''))
         \<subseteq> set (filter (\<lambda>p. KStr p \<notin> viewed_photos s) (iter_photos (library s))) \<and>
       length (fst (select_photos e s requested ''Random'')) = clamp_count requested) \<and>
     (distinct (iter_photos (library s)) \<longrightarrow> distinct (fst (select_photos e s requested ''Random''))) \<and>
     library (snd (select_photos e s requested ''Random'')) = library s"
proof -
  let ?photos = "iter_photos (library s)"
  let ?unv = "filter (\<lambda>p. KStr p \<notin> viewed_photos s) ?photos"
  let ?c = "clamp_count requested"
  have low: "length ?unv < ?c \<Longrightarrow> select_photos e s requested ''Random'' =
      (random_sample (rng e) 0 ?photos (min ?c (length ?photos)), reset_viewed e s)"
    by (simp add: select_photos_random_quiet[OF q] Let_def)
  have high: "?c \<le> length ?unv \<Longrightarrow> select_photos e s requested ''Random'' =
      (random_sample (rng e) 0 ?unv (min ?c (length ?unv)), s)"
    by (simp add: select_photos_random_quiet[OF q] Let_def)
  have len2: "length (random_sample (rng e) 0 ?photos (min ?c (length ?photos))) =
      min ?c (length ?photos)"
    by (rule random_sample_length) simp
  have len1: "length (random_sample (rng e) 0 ?unv (min ?c (length ?unv))) = min ?c (length ?unv)"
    by (rule random_sample_length) simp
  note sub2 = random_sample_subset[of "rng e" 0 ?photos "min ?c (length ?photos)"]
  note sub1 = random_sample_subset[of "rng e" 0 ?unv "min ?c (length ?unv)"]
  have dis: "distinct ?photos \<Longrightarrow> distinct (fst (select_photos e s requested ''Random''))"
  proof -
    assume d: "distinct ?photos"
    then have "distinct ?unv" by (rule distinct_filter)
    with d have "distinct (random_sample (rng e) 0 ?photos (min ?c (length ?photos)))"
      "distinct (random_sample (rng e) 0 ?unv (min ?c (length ?unv)))"
      by (simp_all only: random_sample_distinct)
    then show ?thesis
      by (cases "length ?unv < ?c") (simp_all add: low high)
  qed
  have lib: "library (snd (select_photos e s requested ''Random'')) = library s"
    by (cases "length ?unv < ?c") (simp_all add: low high reset_viewed_fields)
  show ?thesis
  proof (intro conjI impI)
    assume a: "length ?unv < ?c"
    show "viewed_photos (snd (select_photos e s requested ''Random'')) = {}"
      "log_file (snd (select_photos e s requested ''Random'')) =
         (if log_writable e then Payload (JList []) else log_file s)"
      "set (fst (select_photos e s requested ''Random'')) \<subseteq> set ?photos"
      "length (fst (select_photos e s requested ''Random'')) = min ?c (length ?photos)"
      using low[OF a] sub2 len2 by (simp_all add: reset_viewed_fields)
  next
    assume a: "?c \<le> length ?unv"
    show "viewed_photos (snd (select_photos e s requested ''Random'')) = viewed_photos s"
      "log_file (snd (select_photos e s requested ''Random'')) = log_file s"
      "set (fst (select_photos e s requested ''Random'')) \<subseteq> set ?unv"
      "length (fst (select_photos e s requested ''Random'')) = ?c"
      using high[OF a] sub1 len1 a by simp_all
  next
    assume "distinct ?photos"
    then show "distinct (fst (select_photos e s requested ''Random''))" by (rule dis)
  next
    show "library (snd (select_photos e s requested ''Random'')) = library s" by (rule lib)
  qed
qed

text \<open>
  Claim C1, amended. Let the count be the requested count clamped to 1 .. 10000, and
  let no cancellation be observed during the selection. In every mode the selection
  empties the view history and rewrites its record exactly when fewer than count
  photos of the library are unviewed, and then selects from the whole directory:
  \<open>min count n\<close> photos when the directory holds \<open>n\<close>. When at least count photos are
  unviewed, count photos are returned, every one of them unviewed, and the view history
  and its record are as before. Photos of a directory without repeated names are
  never selected twice.
\<close>

theorem select_photos_exhaustion:
  assumes "quiet s"
  shows
    "(length (filter (\<lambda>p. KStr p \<notin> viewed_photos s) (iter_photos (library s)))
        < clamp_count requested \<longrightarrow>
       viewed_photos (snd (select_photos e s requested mode)) = {} \<and>
       log_file (snd (select_photos e s requested mode)) =
         (if log_writable e then Payload (JList []) else log_file s) \<and>
       set (fst (select_photos e s requested mode)) \<subseteq> set (iter_photos (library s)) \<and>
       length (fst (select_photos e s requested mode)) =
         min (clamp_count requested) (length (iter_photos (library s)))) \<and>
     (clamp_count requested
        \<le> length (filter (\<lambda>p. KStr p \<notin> viewed_photos s) (iter_photos (library s))) \<longrightarrow>
       viewed_photos (snd (select_photos e s requested mode)) = viewed_photos s \<and>
       log_file (snd (select_photos e s requested mode)) = log_file s \<and>
       set (fst (select_photos e s requested mode))
         \<subseteq> set (filter (\<lambda>p. KStr p \<notin> viewed_photos s) (iter_photos (library s))) \<and>
       length (fst (select_photos e s requested mode)) = clamp_count requested) \<and>
     (distinct (iter_photos (library s)) \<longrightarrow> distinct (fst (select_photos e s requested mode))) \<and>
     library (snd (select_photos e s requested mode)) = library s"
proof (cases "mode = ''Random''")
  case True
  show ?thesis
    unfolding True by (rule select_photos_random_exhaustion[OF assms])
next
  case False
  with assms show ?thesis by (rule select_photos_dated_exhaustion)
qed

lemma suffix_examples:
  "map lower_char (suffix ''a.jpg'') = ''.jpg''" "map lower_char (suffix ''b.jpg'') = ''.jpg''"
  "map lower_char (suffix ''c.jpg'') = ''.jpg''" "map lower_char (suffix ''d.jpg'') = ''.jpg''"
  "map lower_char (suffix ''notes.txt'') = ''.txt''"
  by (simp_all add: suffix_def lower_char_def less_eq_char_def)

lemma example_photos:
  "iter_photos (Some [File ''a.jpg'', File ''b.jpg'', File ''c.jpg'', Dir ''Gallery'', File ''notes.txt''])
     = [''a.jpg'', ''b.jpg'', ''c.jpg'']"
  "iter_photos (Some [File ''c.jpg'', File ''d.jpg'']) = [''c.jpg'', ''d.jpg'']"
  by (simp_all add: iter_photos_def is_photo_def PHOTO_EXTENSIONS_def suffix_examples)

lemma example_state_fields:
  "viewed_photos example_state = {KStr ''c.jpg''}"
  "library example_state =
     Some [File ''a.jpg'', File ''b.jpg'', File ''c.jpg'', Dir ''Gallery'', File ''notes.txt'']"
  "gallery example_state = Some [File ''c.jpg'', File ''d.jpg'']"
  "date_cache example_state = Map.empty"
  "log_file example_state = Missing"
  "\<not> operation_lock example_state"
  "quiet example_state"
  by (simp_all add: example_state_def quiet_def)

lemma example_env_fields:
  "rng example_env = (\<lambda>i. 0)" "log_writable example_env" "cache_writable example_env"
  by (simp_all add: example_env_def)

theorem select_photos_exhaustion_witness:
  "quiet example_state \<and>
   length (fst (select_photos example_env example_state 2 ''Random'')) = 2 \<and>
   set (fst (select_photos example_env example_state 2 ''Random'')) \<subseteq> {''a.jpg'', ''b.jpg''} \<and>
   viewed_photos (snd (select_photos example_env example_state 2 ''Random'')) = {KStr ''c.jpg''} \<and>
   length (fst (select_photos example_env example_state 3 ''Oldest'')) = 3 \<and>
   viewed_photos (snd (select_photos example_env example_state 3 ''Oldest'')) = {} \<and>
   log_file (snd (select_photos example_env example_state 3 ''Oldest'')) = Payload (JList [])"
  using select_photos_exhaustion[where s = example_state and e = example_env and requested = 2
      and mode = "''Random''"]
    select_photos_exhaustion[where s = example_state and e = example_env and requested = 3
      and mode = "''Oldest''"]
  by (simp add: example_state_fields example_env_fields example_photos clamp_count_def)


lemma save_date_cache_fields:
  "viewed_photos (save_date_cache e s) = viewed_photos s"
  "log_file (save_date_cache e s) = log_file s"
  "library (save_date_cache e s) = library s"
  "gallery (save_date_cache e s) = gallery s"
  "date_cache (save_date_cache e s) = date_cache s"
  "operation_cancelled (save_date_cache e s) = operation_cancelled s"
  "shutdown_after (save_date_cache e s) = shutdown_after s"
  "operation_lock (save_date_cache e s) = operation_lock s"
  by (simp_all add: save_date_cache_def)

lemma reset_viewed_cancel:
  "operation_cancelled (reset_viewed e s) = operation_cancelled s"
  "shutdown_after (reset_viewed e s) = shutdown_after s"
  by (simp_all add: reset_viewed_def save_viewed_photos_def)

text \<open>
  Claim C1 as stated, with the requested count itself: for a requested count of 0 and a
  library whose photos have all been viewed, at least 0 photos are unviewed, yet the
  selection empties the view history and returns a photo that had been viewed.
\<close>

theorem select_photos_requested_count_counterexample:
  "(0::int) \<le> int (length (filter
       (\<lambda>p. KStr p \<notin> viewed_photos
          (example_state\<lparr>viewed_photos := {KStr ''a.jpg'', KStr ''b.jpg'', KStr ''c.jpg''}\<rparr>))
       (iter_photos (library
          (example_state\<lparr>viewed_photos := {KStr ''a.jpg'', KStr ''b.jpg'', KStr ''c.jpg''}\<rparr>))))) \<and>
   fst (select_photos example_env
     (example_state\<lparr>viewed_photos := {KStr ''a.jpg'', KStr ''b.jpg'', KStr ''c.jpg''}\<rparr>) 0
     ''Random'') = [''a.jpg''] \<and>
   viewed_photos (snd (select_photos example_env
     (example_state\<lparr>viewed_photos := {KStr ''a.jpg'', KStr ''b.jpg'', KStr ''c.jpg''}\<rparr>) 0
     ''Random'')) = {}"
proof -
  let ?s = "example_state\<lparr>viewed_photos := {KStr ''a.jpg'', KStr ''b.jpg'', KStr ''c.jpg''}\<rparr>"
  have q: "quiet ?s" using example_state_fields(7) by (simp add: quiet_def)
  have l: "library ?s =
     Some [File ''a.jpg'', File ''b.jpg'', File ''c.jpg'', Dir ''Gallery'', File ''notes.txt'']"
    by (simp add: example_state_fields)
  have c: "clamp_count 0 = Suc 0" by (simp add: clamp_count_def)
  show ?thesis
    by (simp add: select_photos_random_quiet[OF q] l example_photos c example_env_fields
        reset_viewed_fields)
qed

text \<open>
  Claim C5 against the code: a cancellation during the enumeration does not abort the
  selection. In Random mode the shutdown request arrives after the first poll: the
  enumeration stops with one photo, which is fewer than the two requested, so the
  history is emptied and two photos are drawn from the whole directory (an enumeration
  that does not poll the event), although two photos were unviewed. In Newest mode the request arrives
  after three polls: the selection returns nothing, the date of \<^verbatim>\<open>a.jpg\<close> stays cached,
  and the history is emptied as well.
\<close>

theorem select_photos_cancelled:
  "fst (select_photos example_env (example_state\<lparr>shutdown_after := Some 1\<rparr>) 2 ''Random'') =
     [''a.jpg'', ''b.jpg''] \<and>
   viewed_photos (snd (select_photos example_env (example_state\<lparr>shutdown_after := Some 1\<rparr>) 2
     ''Random'')) = {} \<and>
   operation_cancelled (snd (select_photos example_env (example_state\<lparr>shutdown_after := Some 1\<rparr>) 2
     ''Random'')) \<and>
   fst (select_photos example_env (example_state\<lparr>shutdown_after := Some 3\<rparr>) 2 ''Newest'') = [] \<and>
   viewed_photos (snd (select_photos example_env (example_state\<lparr>shutdown_after := Some 3\<rparr>) 2
     ''Newest'')) = {} \<and>
   date_cache (snd (select_photos example_env (example_state\<lparr>shutdown_after := Some 3\<rparr>) 2
     ''Newest'')) ''a.jpg'' = Some 1577934245"
proof -
  have u: "unviewed_photos (example_state\<lparr>shutdown_after := Some (Suc 0)\<rparr>) [''a.jpg'', ''b.jpg'', ''c.jpg'']
      = ([''a.jpg''], example_state\<lparr>shutdown_after := None, operation_cancelled := True\<rparr>)"
    by (simp add: is_set_def example_state_def)
  have c: "clamp_count 2 = 2" by (simp add: clamp_count_def)
  have r: "random_sample (\<lambda>i. 0) 0 [''a.jpg'', ''b.jpg'', ''c.jpg''] 2 = [''a.jpg'', ''b.jpg'']"
    by (simp add: numeral_2_eq_2)
  have l: "library (example_state\<lparr>shutdown_after := Some 1\<rparr>) = library example_state"
    "library (example_state\<lparr>shutdown_after := Some 3\<rparr>) = library example_state"
    by simp_all
  have random: "select_photos example_env (example_state\<lparr>shutdown_after := Some (Suc 0)\<rparr>) 2 ''Random'' =
      ([''a.jpg'', ''b.jpg''],
       reset_viewed example_env (example_state\<lparr>shutdown_after := None, operation_cancelled := True\<rparr>))"
    by (simp add: select_photos_def l example_state_fields example_photos u c r
        example_env_fields reset_viewed_fields del: unviewed_photos.simps)
  have ga: "get_photo_date example_env (example_state\<lparr>shutdown_after := Some 1\<rparr>) ''a.jpg'' =
      (1577934245, example_state\<lparr>shutdown_after := Some 1,
         date_cache := [''a.jpg'' \<mapsto> 1577934245], cache_dirty := True\<rparr>)"
    by (simp add: get_photo_date_def calculate_photo_date_def calculate_photo_date_try_def
        example_read_exif_a example_state_def)
  have p: "photo_with_date_gen example_env (example_state\<lparr>shutdown_after := Some 3\<rparr>) 0
       [''a.jpg'', ''b.jpg'', ''c.jpg''] =
     ([(1577934245, ''a.jpg'')], Suc 0,
      example_state\<lparr>shutdown_after := None, date_cache := [''a.jpg'' \<mapsto> 1577934245],
        cache_dirty := True, operation_cancelled := True\<rparr>)"
    using ga by (simp add: is_set_def example_state_def numeral_3_eq_3)
  let ?s1 = "example_state\<lparr>shutdown_after := None, date_cache := [''a.jpg'' \<mapsto> 1577934245],
        cache_dirty := True, operation_cancelled := True\<rparr>"
  have a: "all_photos_with_date example_env (reset_viewed example_env (save_date_cache example_env ?s1))
      0 [''a.jpg'', ''b.jpg'', ''c.jpg''] =
     ([], 0, reset_viewed example_env (save_date_cache example_env ?s1))"
    by (simp add: is_set_def reset_viewed_def save_viewed_photos_def save_date_cache_def
        example_env_fields)
  have newest: "select_photos example_env (example_state\<lparr>shutdown_after := Some 3\<rparr>) 2 ''Newest'' =
      ([], save_date_cache example_env
             (reset_viewed example_env (save_date_cache example_env ?s1)))"
    by (simp add: select_photos_def l example_state_fields example_photos p c a
        nlargest_def reset_viewed_fields save_date_cache_frame[unfolded scan_frame_def]
        del: photo_with_date_gen.simps all_photos_with_date.simps)
  show ?thesis
    by (simp add: random newest reset_viewed_fields reset_viewed_cancel save_date_cache_fields)
qed

section \<open>Rotation coordinator: proofs\<close>

lemma forget_dupes_fields:
  "viewed_photos (forget_dupes e s dupes) = viewed_photos s - KStr ` set dupes \<and>
   library (forget_dupes e s dupes) = library s \<and> gallery (forget_dupes e s dupes) = gallery s \<and>
   quiet (forget_dupes e s dupes) = quiet s \<and>
   operation_lock (forget_dupes e s dupes) = operation_lock s"
  by (simp add: forget_dupes_def save_viewed_photos_def quiet_def)

lemma return_gallery_photos_not_cancelled:
  "quiet s \<Longrightarrow> return_gallery_photos e s moved dupes ps = (c, m, d, t) \<Longrightarrow> \<not> c \<and> quiet t"
proof (induction ps arbitrary: s moved dupes)
  case Nil
  then show ?case by simp
next
  case (Cons p ps)
  have q1: "quiet (s\<lparr>gallery := dir_remove p (gallery s)\<rparr>)"
    and q2: "quiet (s\<lparr>gallery := dir_remove p (gallery s), library := dir_add_file p (library s)\<rparr>)"
    using Cons.prems(1) by (simp_all add: quiet_def)
  from Cons.prems(2)
  have "return_gallery_photos e s moved dupes ps = (c, m, d, t) \<or>
        return_gallery_photos e (s\<lparr>gallery := dir_remove p (gallery s)\<rparr>)
          moved (dupes @ [p]) ps = (c, m, d, t) \<or>
        return_gallery_photos e
          (s\<lparr>gallery := dir_remove p (gallery s), library := dir_add_file p (library s)\<rparr>)
          (Suc moved) dupes ps = (c, m, d, t)"
    by (simp add: is_set_quiet[OF Cons.prems(1)] split: if_splits)
  with Cons.IH[OF Cons.prems(1)] Cons.IH[OF q1] Cons.IH[OF q2]
  show ?case by blast
qed

lemma move_to_gallery_not_cancelled:
  "quiet s \<Longrightarrow> move_to_gallery e s moved ps = (c, m, t) \<Longrightarrow> \<not> c \<and> quiet t"
proof (induction ps arbitrary: s moved)
  case Nil
  then show ?case by simp
next
  case (Cons p ps)
  have q1: "quiet (s\<lparr>library := dir_remove p (library s), gallery := dir_add_file p (gallery s),
      viewed_photos := insert (KStr p) (viewed_photos s)\<rparr>)"
    using Cons.prems(1) by (simp add: quiet_def)
  from Cons.prems(2)
  have "move_to_gallery e s moved ps = (c, m, t) \<or>
        move_to_gallery e
          (s\<lparr>library := dir_remove p (library s), gallery := dir_add_file p (gallery s),
             viewed_photos := insert (KStr p) (viewed_photos s)\<rparr>) (Suc moved) ps = (c, m, t)"
    by (simp add: is_set_quiet[OF Cons.prems(1)] split: if_splits)
  with Cons.IH[OF Cons.prems(1)] Cons.IH[OF q1]
  show ?case by blast
qed

lemma save_viewed_photos_quiet: "quiet (save_viewed_photos e s) = quiet s"
  by (simp add: save_viewed_photos_def quiet_def)

lemma select_photos_quiet:
  assumes q: "quiet s"
  shows "quiet (snd (select_photos e s requested mode))"
proof (cases "mode = ''Random''")
  case True
  show ?thesis
    unfolding True using q
    by (simp add: select_photos_random_quiet[OF q] Let_def reset_viewed_fields)
next
  case False
  let ?photos = "iter_photos (library s)"
  obtain dated n s1 where p1: "photo_with_date_gen e s 0 ?photos = (dated, n, s1)"
    by (cases "photo_with_date_gen e s 0 ?photos")
  let ?s3 = "reset_viewed e (save_date_cache e s1)"
  obtain dated2 n2 s4 where p2: "all_photos_with_date e ?s3 0 ?photos = (dated2, n2, s4)"
    by (cases "all_photos_with_date e ?s3 0 ?photos")
  from photo_with_date_gen_quiet[OF q p1] have "scan_frame s s1" by simp
  then have q1: "quiet s1" using q by (rule scan_frame_quiet)
  then have q2: "quiet (save_date_cache e s1)"
    by (simp add: quiet_def save_date_cache_fields)
  then have q3: "quiet ?s3" by (simp add: reset_viewed_fields)
  from all_photos_with_date_quiet[OF q3 p2] have "scan_frame ?s3 s4" by simp
  then have "quiet s4" using q3 by (rule scan_frame_quiet)
  then have q5: "quiet (save_date_cache e s4)"
    by (simp add: quiet_def save_date_cache_fields)
  from q2 q5 show ?thesis
    by (simp add: select_photos_dated_quiet[OF q False p1 p2])
qed

lemma empty_gallery_not_cancelled:
  assumes "quiet s"
  shows "\<not> fst (empty_gallery e s) \<and> quiet (snd (snd (empty_gallery e s)))"
proof -
  obtain c m d t where r: "return_gallery_photos e s 0 [] (iter_photos (gallery s)) = (c, m, d, t)"
    by (cases "return_gallery_photos e s 0 [] (iter_photos (gallery s))") auto
  from return_gallery_photos_not_cancelled[OF assms r] show ?thesis
    by (simp add: empty_gallery_def r forget_dupes_fields)
qed

lemma clear_gallery_worker_quiet:
  assumes "quiet s"
  shows "fst (clear_gallery_worker e s) \<noteq> Cancelled \<and> quiet (snd (clear_gallery_worker e s))"
  using empty_gallery_not_cancelled[OF assms, of e] assms
  by (simp add: clear_gallery_worker_def clear_gallery_worker_try_def split_beta quiet_def)

lemma switch_photos_worker_quiet:
  assumes "quiet s"
  shows "fst (switch_photos_worker e s) \<noteq> Cancelled \<and> quiet (snd (switch_photos_worker e s))"
proof -
  let ?s0 = "if gallery s = None then s\<lparr>gallery := Some []\<rparr> else s"
  have q0: "quiet ?s0" using assms by (simp add: quiet_def)
  let ?s2 = "snd (snd (empty_gallery e ?s0))"
  from empty_gallery_not_cancelled[OF q0]
  have c: "\<not> fst (empty_gallery e ?s0)" and q2: "quiet ?s2" by simp_all
  have sel: "\<And>r. quiet (snd (select_photos e ?s2 r (selection_mode e)))"
    using q2 by (rule select_photos_quiet)
  have mv: "\<And>r. \<not> fst (move_to_gallery e (snd (select_photos e ?s2 r (selection_mode e))) 0
                (fst (select_photos e ?s2 r (selection_mode e)))) \<and>
            quiet (snd (snd (move_to_gallery e (snd (select_photos e ?s2 r (selection_mode e))) 0
                (fst (select_photos e ?s2 r (selection_mode e))))))"
  proof -
    fix r
    obtain c2 m t where g: "move_to_gallery e (snd (select_photos e ?s2 r (selection_mode e))) 0
                (fst (select_photos e ?s2 r (selection_mode e))) = (c2, m, t)"
      by (cases "move_to_gallery e (snd (select_photos e ?s2 r (selection_mode e))) 0
                (fst (select_photos e ?s2 r (selection_mode e)))")
    from move_to_gallery_not_cancelled[OF sel g] show "\<not> fst (move_to_gallery e (snd (select_photos e ?s2 r (selection_mode e))) 0
                (fst (select_photos e ?s2 r (selection_mode e)))) \<and>
            quiet (snd (snd (move_to_gallery e (snd (select_photos e ?s2 r (selection_mode e))) 0
                (fst (select_photos e ?s2 r (selection_mode e))))))"
      by (simp add: g)
  qed
  have qq: "\<And>t. quiet (t\<lparr>operation_lock := False\<rparr>) = quiet t" by (simp add: quiet_def)
  show ?thesis
    using assms c q2 mv
    by (auto simp: switch_photos_worker_def switch_photos_worker_try_def fill_gallery_def
        split_beta Let_def qq
        save_viewed_photos_quiet split: option.splits)
qed


lemma worker_releases:
  "\<not> operation_lock (snd (switch_photos_worker e s))"
  "\<not> operation_lock (snd (clear_gallery_worker e s))"
  by (simp_all add: switch_photos_worker_def clear_gallery_worker_def split_beta)

lemma async_releases:
  "\<not> operation_lock s \<Longrightarrow> \<not> operation_lock (snd (switch_photos_async e s))"
  "\<not> operation_lock s \<Longrightarrow> \<not> operation_lock (snd (clear_gallery_async e s))"
  by (simp_all add: switch_photos_async_def clear_gallery_async_def worker_releases Let_def
      split: option.splits)

lemma async_clears_flag:
  "\<not> operation_lock s \<Longrightarrow>
     switch_photos_async e (s\<lparr>operation_cancelled := b\<rparr>) = switch_photos_async e s"
  "\<not> operation_lock s \<Longrightarrow>
     clear_gallery_async e (s\<lparr>operation_cancelled := b\<rparr>) = clear_gallery_async e s"
  by (simp_all add: switch_photos_async_def clear_gallery_async_def)

lemma async_not_cancelled:
  assumes "\<not> operation_lock s" "shutdown_after s = None"
  shows "fst (switch_photos_async e s) \<noteq> Cancelled \<and>
         \<not> operation_cancelled (snd (switch_photos_async e s)) \<and>
         fst (clear_gallery_async e s) \<noteq> Cancelled \<and>
         \<not> operation_cancelled (snd (clear_gallery_async e s))"
proof -
  let ?s1 = "s\<lparr>operation_lock := True, operation_cancelled := False\<rparr>"
  have q: "quiet ?s1" using assms(2) by (simp add: quiet_def)
  from switch_photos_worker_quiet[OF q, of e] clear_gallery_worker_quiet[OF q, of e]
  have w: "fst (switch_photos_worker e ?s1) \<noteq> Cancelled"
    "\<not> operation_cancelled (snd (switch_photos_worker e ?s1))"
    "fst (clear_gallery_worker e ?s1) \<noteq> Cancelled"
    "\<not> operation_cancelled (snd (clear_gallery_worker e ?s1))"
    by (simp_all add: quiet_def)
  with assms(1) show ?thesis
    by (simp add: switch_photos_async_def clear_gallery_async_def Let_def split: option.splits)
qed

text \<open>
  Claim C9. Both workers end with the lock released, whichever way their body ends:
  completion, return on cancellation, or an exception. An operation that is accepted
  (the lock was free) ends with the lock released on every path: rejection of the
  count or of the paths, failure to start the worker, and every end of the worker. A
  request made while the lock is held is rejected and changes nothing. The
  cancellation event is cleared when an operation is accepted: the operation does not
  depend on the value the event had before, and when no shutdown request arrives
  during the operation it does not end cancelled and leaves the event clear.
\<close>

theorem rotation_lock_lifecycle:
  "\<not> operation_lock (snd (switch_photos_worker e s)) \<and>
   \<not> operation_lock (snd (clear_gallery_worker e s)) \<and>
   (\<not> operation_lock s \<longrightarrow>
      \<not> operation_lock (snd (switch_photos_async e s)) \<and>
      \<not> operation_lock (snd (clear_gallery_async e s)) \<and>
      switch_photos_async e (s\<lparr>operation_cancelled := b\<rparr>) = switch_photos_async e s \<and>
      clear_gallery_async e (s\<lparr>operation_cancelled := b\<rparr>) = clear_gallery_async e s) \<and>
   (\<not> operation_lock s \<and> shutdown_after s = None \<longrightarrow>
      fst (switch_photos_async e s) \<noteq> Cancelled \<and>
      \<not> operation_cancelled (snd (switch_photos_async e s)) \<and>
      fst (clear_gallery_async e s) \<noteq> Cancelled \<and>
      \<not> operation_cancelled (snd (clear_gallery_async e s))) \<and>
   (operation_lock s \<longrightarrow>
      switch_photos_async e s = (Rejected, s) \<and> clear_gallery_async e s = (Rejected, s))"
proof (intro conjI impI)
  show "\<not> operation_lock (snd (switch_photos_worker e s))"
    "\<not> operation_lock (snd (clear_gallery_worker e s))"
    by (rule worker_releases)+
next
  assume a: "\<not> operation_lock s"
  then show "\<not> operation_lock (snd (switch_photos_async e s))"
    "\<not> operation_lock (snd (clear_gallery_async e s))"
    by (rule async_releases)+
  from a show "switch_photos_async e (s\<lparr>operation_cancelled := b\<rparr>) = switch_photos_async e s"
    "clear_gallery_async e (s\<lparr>operation_cancelled := b\<rparr>) = clear_gallery_async e s"
    by (rule async_clears_flag)+
next
  assume a: "\<not> operation_lock s \<and> shutdown_after s = None"
  then have "\<not> operation_lock s" "shutdown_after s = None" by simp_all
  from async_not_cancelled[OF this, of e]
  show "fst (switch_photos_async e s) \<noteq> Cancelled"
    "\<not> operation_cancelled (snd (switch_photos_async e s))"
    "fst (clear_gallery_async e s) \<noteq> Cancelled"
    "\<not> operation_cancelled (snd (clear_gallery_async e s))"
    by simp_all
next
  assume "operation_lock s"
  then show "switch_photos_async e s = (Rejected, s)" "clear_gallery_async e s = (Rejected, s)"
    by (simp_all add: switch_photos_async_def clear_gallery_async_def)
qed

theorem rotation_lock_lifecycle_witness:
  "\<not> operation_lock (snd (switch_photos_async example_env
        (example_state\<lparr>operation_cancelled := True\<rparr>))) \<and>
   \<not> operation_cancelled (snd (switch_photos_async example_env
        (example_state\<lparr>operation_cancelled := True\<rparr>))) \<and>
   fst (clear_gallery_async example_env (example_state\<lparr>operation_cancelled := True\<rparr>)) \<noteq> Cancelled \<and>
   \<not> operation_lock (snd (switch_photos_worker example_env
        (example_state\<lparr>library := None, operation_lock := True\<rparr>))) \<and>
   switch_photos_async example_env (example_state\<lparr>operation_lock := True\<rparr>) =
     (Rejected, example_state\<lparr>operation_lock := True\<rparr>)"
  using rotation_lock_lifecycle[of example_env "example_state\<lparr>operation_cancelled := True\<rparr>" True]
    rotation_lock_lifecycle[of example_env "example_state\<lparr>library := None, operation_lock := True\<rparr>" True]
    rotation_lock_lifecycle[of example_env "example_state\<lparr>operation_lock := True\<rparr>" True]
  by (simp add: example_state_def)

section \<open>Ranking: proofs\<close>

lemma take_sorted_wrt_front:
  assumes s: "sorted_wrt R xs" and x: "x \<in> set (take c xs)"
    and y: "y \<in> set xs" "y \<notin> set (take c xs)"
  shows "R x y"
proof -
  from x obtain i where i: "i < length (take c xs)" "take c xs ! i = x"
    by (auto simp: in_set_conv_nth)
  from y(1) obtain j where j: "j < length xs" "xs ! j = y"
    by (auto simp: in_set_conv_nth)
  have ic: "i < c" "i < length xs" using i(1) by simp_all
  have xi: "xs ! i = x" using i ic by simp
  have "c \<le> j"
  proof (rule ccontr)
    assume "\<not> c \<le> j"
    then have "j < length (take c xs)" "take c xs ! j = y" using j by simp_all
    then have "y \<in> set (take c xs)" by (metis nth_mem)
    with y(2) show False by contradiction
  qed
  with ic have "i < j" by simp
  with s j(1) have "R (xs ! i) (xs ! j)" by (simp add: sorted_wrt_iff_nth_less)
  with xi j(2) show ?thesis by simp
qed

lemma sort_key_distinct:
  assumes "distinct (map k xs)"
  shows "distinct (map k (sort_key k xs))"
proof -
  have "mset (map k (sort_key k xs)) = mset (map k xs)" by simp
  with assms show ?thesis by (metis mset_eq_imp_distinct_iff)
qed

lemma sort_key_strict:
  assumes "distinct (map k xs)"
  shows "sorted_wrt (\<lambda>a b. k a < k b) (sort_key k xs)"
proof -
  have "sorted (map k (sort_key k xs))" by (rule sorted_sort_key)
  with sort_key_distinct[OF assms] have "sorted_wrt (<) (map k (sort_key k xs))"
    by (simp add: strict_sorted_iff)
  then show ?thesis by (simp add: sorted_wrt_map)
qed

lemma nsmallest_front:
  assumes "distinct (map k xs)" "x \<in> set (nsmallest c k xs)" "y \<in> set xs"
    "y \<notin> set (nsmallest c k xs)"
  shows "k x < k y"
  using take_sorted_wrt_front[OF sort_key_strict[OF assms(1)], of x c y] assms
  by (simp add: nsmallest_def)

lemma nlargest_front:
  assumes "distinct (map k xs)" "x \<in> set (nlargest c k xs)" "y \<in> set xs"
    "y \<notin> set (nlargest c k xs)"
  shows "k y < k x"
proof -
  have "distinct (map k (rev xs))" using assms(1) by (simp add: rev_map[symmetric])
  from sort_key_strict[OF this]
  have "sorted_wrt (\<lambda>a b. k b < k a) (rev (sort_key k (rev xs)))"
    by (simp add: sorted_wrt_rev)
  from take_sorted_wrt_front[OF this, of x c y] assms show ?thesis
    by (simp add: nlargest_def)
qed

lemma sort_key_mset_cong:
  assumes m: "mset xs = mset ys" and d: "distinct (map k xs)"
  shows "sort_key k xs = sort_key k ys"
proof -
  have mk: "mset (map k xs) = mset (map k ys)" using m by (metis mset_map)
  with d have dy: "distinct (map k ys)" by (metis mset_eq_imp_distinct_iff)
  have s: "set xs = set ys" using m by (rule mset_eq_setD)
  have "map k (sort_key k xs) = map k (sort_key k ys)"
  proof (rule sorted_distinct_set_unique)
    show "sorted (map k (sort_key k xs))" "sorted (map k (sort_key k ys))"
      by (rule sorted_sort_key)+
    show "distinct (map k (sort_key k xs))" using d by (rule sort_key_distinct)
    show "distinct (map k (sort_key k ys))" using dy by (rule sort_key_distinct)
    show "set (map k (sort_key k xs)) = set (map k (sort_key k ys))" using s by simp
  qed
  moreover have "inj_on k (set (sort_key k xs) \<union> set (sort_key k ys))"
    using d s by (simp add: distinct_map)
  ultimately show ?thesis by (simp add: inj_on_map_eq_map)
qed

lemma nlargest_mset_cong:
  assumes m: "mset xs = mset ys" and d: "distinct (map k xs)"
  shows "nlargest c k xs = nlargest c k ys \<and> nsmallest c k xs = nsmallest c k ys"
proof -
  have "mset (rev xs) = mset (rev ys)" using m by simp
  moreover have "distinct (map k (rev xs))" using d by (simp add: rev_map[symmetric])
  ultimately have "sort_key k (rev xs) = sort_key k (rev ys)" by (rule sort_key_mset_cong)
  with sort_key_mset_cong[OF m d] show ?thesis by (simp add: nlargest_def nsmallest_def)
qed

lemma pick_mset_cong:
  "mset xs = mset ys \<Longrightarrow> distinct (map (rank_key e) xs) \<Longrightarrow> pick e c mode xs = pick e c mode ys"
  using nlargest_mset_cong[of xs ys "rank_key e" c] by (simp add: pick_def)

lemma rank_key_distinct:
  assumes "distinct (map (path_key e) unv)"
  shows "distinct (map (rank_key e) (map (\<lambda>p. (ts p, p)) unv))"
proof -
  have "map snd (map (rank_key e) (map (\<lambda>p. (ts p, p)) unv)) = map (path_key e) unv"
    by (induction unv) (simp_all add: rank_key_def)
  with assms have "distinct (map snd (map (rank_key e) (map (\<lambda>p. (ts p, p)) unv)))"
    by (simp only:)
  then show ?thesis by (simp only: distinct_map[where f = snd])
qed

lemma dated_by_cache:
  "(\<forall>x \<in> set xs. f (snd x) = Some (fst x)) \<Longrightarrow> xs = map (\<lambda>p. (the (f p), p)) (map snd xs)"
  by (induction xs) auto


lemma get_photo_date_value:
  assumes "get_photo_date e s p = (d, t)"
  shows "(\<forall>c. date_cache s p = Some c \<longrightarrow> d = c \<and> date_cache t = date_cache s) \<and>
         (date_cache s p = None \<longrightarrow>
            date_cache t = (date_cache s)(p \<mapsto> d) \<and>
            (\<forall>c. calculate_photo_date_try e p = Inr c \<longrightarrow> d = c))"
  using assms
  by (auto simp: get_photo_date_def calculate_photo_date_def split: option.splits sum.splits)

lemma photo_with_date_gen_resolves:
  "quiet s \<Longrightarrow>
   (\<forall>q c. date_cache s q = Some c \<longrightarrow> c = D q) \<Longrightarrow>
   (\<forall>p \<in> set ps. KStr p \<notin> viewed_photos s \<longrightarrow> date_cache s p = None \<longrightarrow>
        calculate_photo_date_try e p = Inr (D p)) \<Longrightarrow>
   photo_with_date_gen e s k ps = (dated, n, t) \<Longrightarrow>
   dated = map (\<lambda>p. (D p, p)) (filter (\<lambda>p. KStr p \<notin> viewed_photos s) ps)"
proof (induction ps arbitrary: s k dated n t)
  case Nil
  then show ?case by simp
next
  case (Cons p ps)
  show ?case
  proof (cases "KStr p \<in> viewed_photos s")
    case True
    with Cons.prems have r: "photo_with_date_gen e s k ps = (dated, n, t)"
      by (simp only: photo_with_date_gen_viewed)
    have "\<forall>p \<in> set ps. KStr p \<notin> viewed_photos s \<longrightarrow> date_cache s p = None \<longrightarrow>
        calculate_photo_date_try e p = Inr (D p)"
      using Cons.prems(3) by simp
    from Cons.IH[OF Cons.prems(1) Cons.prems(2) this r] True show ?thesis by simp
  next
    case False
    let ?s3 = "if Suc k mod 5000 = 0 then save_date_cache e s else s"
    obtain d s4 where g: "get_photo_date e ?s3 p = (d, s4)"
      by (cases "get_photo_date e ?s3 p")
    obtain ys m u where r: "photo_with_date_gen e s4 (Suc k) ps = (ys, m, u)"
      by (cases "photo_with_date_gen e s4 (Suc k) ps")
    have c3: "date_cache ?s3 = date_cache s"
      by (simp add: save_date_cache_fields)
    from scan_step_frame[OF g] have f: "scan_frame s s4" by simp
    from f Cons.prems(1) have q4: "quiet s4" by (rule scan_frame_quiet)
    have v: "viewed_photos s4 = viewed_photos s" using f by (simp add: scan_frame_def)
    note gv = get_photo_date_value[OF g, unfolded c3]
    have dp: "d = D p"
    proof (cases "date_cache s p")
      case None
      with Cons.prems(3) False have "calculate_photo_date_try e p = Inr (D p)" by simp
      with gv None show ?thesis by simp
    next
      case (Some c)
      with gv Cons.prems(2) show ?thesis by simp
    qed
    have c4: "date_cache s4 = date_cache s \<or> date_cache s4 = (date_cache s)(p \<mapsto> D p)"
      using gv dp by (cases "date_cache s p") auto
    have a4: "\<forall>q c. date_cache s4 q = Some c \<longrightarrow> c = D q"
      using c4 Cons.prems(2) by (auto split: if_splits)
    have n4: "\<forall>q. date_cache s4 q = None \<longrightarrow> date_cache s q = None"
      using c4 by (auto split: if_splits)
    have d4: "\<forall>p \<in> set ps. KStr p \<notin> viewed_photos s4 \<longrightarrow> date_cache s4 p = None \<longrightarrow>
        calculate_photo_date_try e p = Inr (D p)"
      using Cons.prems(3) n4 v by simp
    from Cons.IH[OF q4 a4 d4 r]
    have ih: "ys = map (\<lambda>p. (D p, p)) (filter (\<lambda>p. KStr p \<notin> viewed_photos s) ps)"
      by (simp only: v)
    from photo_with_date_gen_unviewed[OF Cons.prems(1) False g r] Cons.prems(4)
    have "dated = (d, p) # ys" by simp
    with ih dp False show ?thesis by simp
  qed
qed

lemma photo_with_date_gen_known:
  assumes q: "quiet s"
    and d: "\<forall>p \<in> set ps. KStr p \<notin> viewed_photos s \<longrightarrow> datable e s p"
    and g: "photo_with_date_gen e s k ps = (dated, n, t)"
  shows "dated = map (\<lambda>p. (known_date e s p, p)) (filter (\<lambda>p. KStr p \<notin> viewed_photos s) ps)"
proof (rule photo_with_date_gen_resolves[OF q _ _ g])
  show "\<forall>q c. date_cache s q = Some c \<longrightarrow> c = known_date e s q"
    by (simp add: known_date_def)
  show "\<forall>p \<in> set ps. KStr p \<notin> viewed_photos s \<longrightarrow> date_cache s p = None \<longrightarrow>
        calculate_photo_date_try e p = Inr (known_date e s p)"
    using d by (auto simp: datable_def known_date_def)
qed


lemma select_photos_dated_enough:
  assumes q: "quiet s" and m: "mode \<noteq> ''Random''"
    and p1: "photo_with_date_gen e s 0 (iter_photos (library s)) = (dated, n, s1)"
    and enough: "clamp_count requested
      \<le> length (filter (\<lambda>p. KStr p \<notin> viewed_photos s) (iter_photos (library s)))"
  shows "select_photos e s requested mode =
           (pick e (clamp_count requested) mode dated, save_date_cache e s1)"
proof -
  let ?photos = "iter_photos (library s)"
  let ?s3 = "reset_viewed e (save_date_cache e s1)"
  obtain dated2 n2 s4 where p2: "all_photos_with_date e ?s3 0 ?photos = (dated2, n2, s4)"
    by (cases "all_photos_with_date e ?s3 0 ?photos")
  from photo_with_date_gen_quiet[OF q p1]
  have "map snd dated = filter (\<lambda>p. KStr p \<notin> viewed_photos s) ?photos" by simp
  then have "length dated = length (filter (\<lambda>p. KStr p \<notin> viewed_photos s) ?photos)"
    by (metis length_map)
  with enough have "\<not> length (pick e (clamp_count requested) mode dated) < clamp_count requested"
    by (simp add: pick_length)
  with select_photos_dated_quiet[OF q m p1 p2, of requested] show ?thesis by simp
qed

lemma pick_newest_front:
  assumes d: "distinct (map (path_key e) unv)" and m: "mode = ''Newest''"
    and x: "x \<in> set (pick e c mode (map (\<lambda>p. (ts p, p)) unv))"
    and y: "y \<in> set unv" "y \<notin> set (pick e c mode (map (\<lambda>p. (ts p, p)) unv))"
  shows "ts y < ts x \<or> (ts y = ts x \<and> path_key e y < path_key e x)"
proof -
  let ?dated = "map (\<lambda>p. (ts p, p)) unv"
  note dd = rank_key_distinct[OF d, of ts]
  have sub: "set (nlargest c (rank_key e) ?dated) \<subseteq> set ?dated"
    using set_take_subset[of c "rev (sort_key (rank_key e) (rev ?dated))"]
    by (simp add: nlargest_def)
  from x m obtain a where a: "(a, x) \<in> set (nlargest c (rank_key e) ?dated)"
    by (auto simp: pick_def)
  with sub have "a = ts x" by auto
  with a have xin: "(ts x, x) \<in> set (nlargest c (rank_key e) ?dated)" by simp
  have yin: "(ts y, y) \<in> set ?dated" using y(1) by auto
  have yout: "(ts y, y) \<notin> set (nlargest c (rank_key e) ?dated)"
  proof
    assume "(ts y, y) \<in> set (nlargest c (rank_key e) ?dated)"
    then have "snd (ts y, y) \<in> snd ` set (nlargest c (rank_key e) ?dated)" by (rule imageI)
    then have "y \<in> set (pick e c mode ?dated)" using m by (simp add: pick_def)
    with y(2) show False by contradiction
  qed
  from nlargest_front[OF dd xin yin yout] show ?thesis
    by (auto simp: rank_key_def less_prod_def)
qed

lemma pick_oldest_front:
  assumes d: "distinct (map (path_key e) unv)" and m: "mode \<noteq> ''Newest''"
    and x: "x \<in> set (pick e c mode (map (\<lambda>p. (ts p, p)) unv))"
    and y: "y \<in> set unv" "y \<notin> set (pick e c mode (map (\<lambda>p. (ts p, p)) unv))"
  shows "ts x < ts y \<or> (ts x = ts y \<and> path_key e x < path_key e y)"
proof -
  let ?dated = "map (\<lambda>p. (ts p, p)) unv"
  note dd = rank_key_distinct[OF d, of ts]
  have sub: "set (nsmallest c (rank_key e) ?dated) \<subseteq> set ?dated"
    using set_take_subset[of c "sort_key (rank_key e) ?dated"] by (simp add: nsmallest_def)
  from x m obtain a where a: "(a, x) \<in> set (nsmallest c (rank_key e) ?dated)"
    by (auto simp: pick_def)
  with sub have "a = ts x" by auto
  with a have xin: "(ts x, x) \<in> set (nsmallest c (rank_key e) ?dated)" by simp
  have yin: "(ts y, y) \<in> set ?dated" using y(1) by auto
  have yout: "(ts y, y) \<notin> set (nsmallest c (rank_key e) ?dated)"
  proof
    assume "(ts y, y) \<in> set (nsmallest c (rank_key e) ?dated)"
    then have "snd (ts y, y) \<in> snd ` set (nsmallest c (rank_key e) ?dated)" by (rule imageI)
    then have "y \<in> set (pick e c mode ?dated)" using m by (simp add: pick_def)
    with y(2) show False by contradiction
  qed
  from nsmallest_front[OF dd xin yin yout] show ?thesis
    by (auto simp: rank_key_def less_prod_def)
qed

lemma iter_photos_mset:
  "mset es2 = mset es \<Longrightarrow> mset (iter_photos (Some es2)) = mset (iter_photos (Some es))"
proof -
  assume m: "mset es2 = mset es"
  have "mset (filter is_photo es2) = mset (filter is_photo es)"
    by (simp only: mset_filter m)
  then have "image_mset entry_name (mset (filter is_photo es2)) =
      image_mset entry_name (mset (filter is_photo es))"
    by (rule arg_cong)
  then show ?thesis by (simp only: iter_photos_def option.case mset_map)
qed


lemma filter_mset_cong_list: "mset xs = mset ys \<Longrightarrow> mset (filter P xs) = mset (filter P ys)"
  by (simp only: mset_filter)

lemma map_mset_cong_list: "mset xs = mset ys \<Longrightarrow> mset (map f xs) = mset (map f ys)"
  by (metis mset_map)

lemma path_key_distinct_filter:
  "distinct (map (path_key e) ps) \<Longrightarrow> distinct (map (path_key e) (filter P ps))"
  by (rule distinct_map_filter)

lemma select_photos_enumeration_order:
  assumes q: "quiet s" and m: "mode \<noteq> ''Random''"
    and lib: "library s = Some es" and perm: "mset es2 = mset es"
    and dist: "distinct (map (path_key e) (iter_photos (library s)))"
    and enough: "clamp_count requested
      \<le> length (filter (\<lambda>p. KStr p \<notin> viewed_photos s) (iter_photos (library s)))"
    and d: "\<forall>p \<in> set (iter_photos (library s)). KStr p \<notin> viewed_photos s \<longrightarrow> datable e s p"
  shows "fst (select_photos e (s\<lparr>library := Some es2\<rparr>) requested mode) =
         fst (select_photos e s requested mode)"
proof -
  let ?s2 = "s\<lparr>library := Some es2\<rparr>"
  let ?U = "\<lambda>p. KStr p \<notin> viewed_photos s"
  have q2: "quiet ?s2" using q by (simp add: quiet_def)
  have pm: "mset (iter_photos (Some es2)) = mset (iter_photos (library s))"
    using iter_photos_mset[OF perm] by (simp only: lib)
  then have um: "mset (filter ?U (iter_photos (Some es2))) = mset (filter ?U (iter_photos (library s)))"
    by (rule filter_mset_cong_list)
  then have "length (filter ?U (iter_photos (Some es2))) = length (filter ?U (iter_photos (library s)))"
    by (rule mset_eq_length)
  with enough have enough2: "clamp_count requested
      \<le> length (filter (\<lambda>p. KStr p \<notin> viewed_photos ?s2) (iter_photos (library ?s2)))"
    by simp
  have "set (iter_photos (Some es2)) = set (iter_photos (library s))"
    using pm by (rule mset_eq_setD)
  with d have d2: "\<forall>p \<in> set (iter_photos (library ?s2)).
      KStr p \<notin> viewed_photos ?s2 \<longrightarrow> datable e ?s2 p"
    by (simp add: datable_def)
  have k: "known_date e ?s2 = known_date e s"
    by (rule ext) (simp add: known_date_def)
  obtain dated n s1 where p1: "photo_with_date_gen e s 0 (iter_photos (library s)) = (dated, n, s1)"
    by (cases "photo_with_date_gen e s 0 (iter_photos (library s))")
  obtain dated2 n2 s12 where
    p2: "photo_with_date_gen e ?s2 0 (iter_photos (library ?s2)) = (dated2, n2, s12)"
    by (cases "photo_with_date_gen e ?s2 0 (iter_photos (library ?s2))")
  have e1: "dated = map (\<lambda>p. (known_date e s p, p)) (filter ?U (iter_photos (library s)))"
    by (rule photo_with_date_gen_known[OF q d p1])
  have e2: "dated2 = map (\<lambda>p. (known_date e s p, p)) (filter ?U (iter_photos (Some es2)))"
    using photo_with_date_gen_known[OF q2 d2 p2] by (simp add: k)
  have m2: "mset dated = mset dated2"
    unfolding e1 e2 using um[symmetric] by (rule map_mset_cong_list)
  have "distinct (map (path_key e) (filter ?U (iter_photos (library s))))"
    using dist by (rule path_key_distinct_filter)
  then have "distinct (map (rank_key e) dated)"
    unfolding e1 by (rule rank_key_distinct)
  with m2 have "pick e (clamp_count requested) mode dated = pick e (clamp_count requested) mode dated2"
    by (rule pick_mset_cong)
  then show ?thesis
    by (simp add: select_photos_dated_enough[OF q m p1 enough]
        select_photos_dated_enough[OF q2 m p2 enough2])
qed

text \<open>
  Claim C3, amended. Let count be the count of the selector (the requested count
  clamped to 1 .. 10000), let the mode be Newest or Oldest, let no cancellation be
  observed, let the names of the photos of the library be pairwise different as paths
  compare them (on Windows regardless of the case of the letters), and let at least
  count photos be unviewed. Then every unviewed photo has a resolved date in the cache
  after the scan, and the selection consists of exactly count unviewed photos such that
  every selected photo, compared with every unviewed photo left out, has the later
  date in Newest mode and the earlier date otherwise, equal dates being decided by the
  file names as paths compare them: letter case counts, except on Windows. The
  selection is the ranking of the unviewed photos by the pair of date and path. When
  the date of every unviewed photo is cached or can be read from the file, without
  falling back on the clock, the selection is the same for every order in which the
  directory lists its entries.
\<close>

theorem select_photos_top_count:
  assumes q: "quiet s" and m: "mode \<noteq> ''Random''"
    and dist: "distinct (map (path_key e) (iter_photos (library s)))"
    and enough: "clamp_count requested
      \<le> length (filter (\<lambda>p. KStr p \<notin> viewed_photos s) (iter_photos (library s)))"
  shows
    "(\<forall>p \<in> set (filter (\<lambda>p. KStr p \<notin> viewed_photos s) (iter_photos (library s))).
        date_cache (snd (select_photos e s requested mode)) p \<noteq> None) \<and>
     fst (select_photos e s requested mode) =
       pick e (clamp_count requested) mode
         (map (\<lambda>p. (the (date_cache (snd (select_photos e s requested mode)) p), p))
            (filter (\<lambda>p. KStr p \<notin> viewed_photos s) (iter_photos (library s)))) \<and>
     length (fst (select_photos e s requested mode)) = clamp_count requested \<and>
     distinct (fst (select_photos e s requested mode)) \<and>
     set (fst (select_photos e s requested mode))
       \<subseteq> set (filter (\<lambda>p. KStr p \<notin> viewed_photos s) (iter_photos (library s))) \<and>
     (\<forall>x \<in> set (fst (select_photos e s requested mode)).
        \<forall>y \<in> set (filter (\<lambda>p. KStr p \<notin> viewed_photos s) (iter_photos (library s))).
          y \<notin> set (fst (select_photos e s requested mode)) \<longrightarrow>
          (if mode = ''Newest''
           then the (date_cache (snd (select_photos e s requested mode)) y)
                  < the (date_cache (snd (select_photos e s requested mode)) x) \<or>
                (the (date_cache (snd (select_photos e s requested mode)) y)
                  = the (date_cache (snd (select_photos e s requested mode)) x) \<and>
                 path_key e y < path_key e x)
           else the (date_cache (snd (select_photos e s requested mode)) x)
                  < the (date_cache (snd (select_photos e s requested mode)) y) \<or>
                (the (date_cache (snd (select_photos e s requested mode)) x)
                  = the (date_cache (snd (select_photos e s requested mode)) y) \<and>
                 path_key e x < path_key e y))) \<and>
     (library s = Some es \<and> mset es2 = mset es \<and>
      (\<forall>p \<in> set (filter (\<lambda>p. KStr p \<notin> viewed_photos s) (iter_photos (library s))).
         datable e s p) \<longrightarrow>
        fst (select_photos e (s\<lparr>library := Some es2\<rparr>) requested mode) =
        fst (select_photos e s requested mode))"
proof -
  let ?unv = "filter (\<lambda>p. KStr p \<notin> viewed_photos s) (iter_photos (library s))"
  let ?c = "clamp_count requested"
  obtain dated n s1 where p1: "photo_with_date_gen e s 0 (iter_photos (library s)) = (dated, n, s1)"
    by (cases "photo_with_date_gen e s 0 (iter_photos (library s))")
  note sel = select_photos_dated_enough[OF q m p1 enough]
  let ?t = "snd (select_photos e s requested mode)"
  let ?ts = "\<lambda>p. the (date_cache ?t p)"
  have ct: "date_cache ?t = date_cache s1"
    by (simp add: sel save_date_cache_fields)
  from photo_with_date_gen_quiet[OF q p1]
  have d1: "map snd dated = ?unv"
    and cached: "\<forall>x \<in> set dated. date_cache s1 (snd x) = Some (fst x)"
    by simp_all
  have dated: "dated = map (\<lambda>p. (?ts p, p)) ?unv"
    using dated_by_cache[OF cached] by (simp only: ct d1)
  have dk: "distinct (map (path_key e) ?unv)" using dist by (rule path_key_distinct_filter)
  then have du: "distinct ?unv" by (simp only: distinct_map)
  have fs0: "fst (select_photos e s requested mode) = pick e ?c mode dated"
    by (simp add: sel)
  have fs: "fst (select_photos e s requested mode) = pick e ?c mode (map (\<lambda>p. (?ts p, p)) ?unv)"
    by (rule trans[OF fs0 arg_cong[where f = "pick e ?c mode", OF dated]])
  have c1: "\<forall>p \<in> set ?unv. date_cache ?t p \<noteq> None"
  proof
    fix p assume "p \<in> set ?unv"
    then have "p \<in> snd ` set dated" by (simp only: d1[symmetric] set_map)
    then obtain x where "x \<in> set dated" "p = snd x" by auto
    with cached show "date_cache ?t p \<noteq> None" by (simp add: ct)
  qed
  have len: "length (fst (select_photos e s requested mode)) = ?c"
    using enough by (simp add: fs pick_length)
  have dis: "distinct (fst (select_photos e s requested mode))"
    unfolding fs by (rule pick_distinct) (simp add: o_def du)
  have sub: "set (fst (select_photos e s requested mode)) \<subseteq> set ?unv"
    using pick_subset[of e ?c mode "map (\<lambda>p. (?ts p, p)) ?unv"]
    by (simp add: fs o_def)
  have front: "\<forall>x \<in> set (fst (select_photos e s requested mode)). \<forall>y \<in> set ?unv.
      y \<notin> set (fst (select_photos e s requested mode)) \<longrightarrow>
      (if mode = ''Newest''
       then ?ts y < ?ts x \<or> (?ts y = ?ts x \<and> path_key e y < path_key e x)
       else ?ts x < ?ts y \<or> (?ts x = ?ts y \<and> path_key e x < path_key e y))"
  proof (intro ballI impI)
    fix x y
    assume x: "x \<in> set (fst (select_photos e s requested mode))"
      and y: "y \<in> set ?unv" "y \<notin> set (fst (select_photos e s requested mode))"
    have x': "x \<in> set (pick e ?c mode (map (\<lambda>p. (?ts p, p)) ?unv))"
      using x unfolding fs .
    have y': "y \<notin> set (pick e ?c mode (map (\<lambda>p. (?ts p, p)) ?unv))"
      using y(2) unfolding fs .
    show "if mode = ''Newest''
       then ?ts y < ?ts x \<or> (?ts y = ?ts x \<and> path_key e y < path_key e x)
       else ?ts x < ?ts y \<or> (?ts x = ?ts y \<and> path_key e x < path_key e y)"
    proof (cases "mode = ''Newest''")
      case True
      from pick_newest_front[OF dk True x' y(1) y'] True show ?thesis by simp
    next
      case False
      from pick_oldest_front[OF dk False x' y(1) y'] False show ?thesis by simp
    qed
  qed
  have order: "library s = Some es \<and> mset es2 = mset es \<and> (\<forall>p \<in> set ?unv. datable e s p) \<longrightarrow>
        fst (select_photos e (s\<lparr>library := Some es2\<rparr>) requested mode) =
        fst (select_photos e s requested mode)"
  proof
    assume a: "library s = Some es \<and> mset es2 = mset es \<and> (\<forall>p \<in> set ?unv. datable e s p)"
    then have d: "\<forall>p \<in> set (iter_photos (library s)). KStr p \<notin> viewed_photos s \<longrightarrow> datable e s p"
      by simp
    from a have "library s = Some es" "mset es2 = mset es" by simp_all
    from select_photos_enumeration_order[OF q m this dist enough d]
    show "fst (select_photos e (s\<lparr>library := Some es2\<rparr>) requested mode) =
        fst (select_photos e s requested mode)" .
  qed
  from c1 fs len dis sub front order show ?thesis by (intro conjI)
qed

lemma example_stat_b: "stat_date example_env ''b.jpg'' = Inr 10"
  by (simp add: stat_date_def example_env_def)

lemma example_dates:
  "calculate_photo_date_try example_env ''a.jpg'' = Inr 1577934245"
  "calculate_photo_date_try example_env ''b.jpg'' = Inr 10"
  by (simp_all add: calculate_photo_date_try_def example_read_exif_a example_read_exif_other
      example_stat_b)

lemma example_known_dates:
  "known_date example_env example_state ''a.jpg'' = 1577934245"
  "known_date example_env example_state ''b.jpg'' = 10"
  "datable example_env example_state ''a.jpg''"
  "datable example_env example_state ''b.jpg''"
  by (simp_all add: known_date_def datable_def example_dates example_state_fields)

lemma example_ranking:
  "fst (select_photos example_env example_state 1 mode) =
     (if mode = ''Random'' then [''a.jpg''] else if mode = ''Newest'' then [''a.jpg''] else [''b.jpg''])"
proof (cases "mode = ''Random''")
  case True
  then show ?thesis
    by (simp add: select_photos_random_quiet example_state_fields example_photos
        example_env_fields clamp_count_def)
next
  case False
  obtain dated n s1 where p1:
    "photo_with_date_gen example_env example_state 0 (iter_photos (library example_state)) =
       (dated, n, s1)"
    by (cases "photo_with_date_gen example_env example_state 0 (iter_photos (library example_state))")
  have d: "\<forall>p \<in> set (iter_photos (library example_state)).
      KStr p \<notin> viewed_photos example_state \<longrightarrow> datable example_env example_state p"
    by (simp add: example_state_fields example_photos example_known_dates)
  have e: "clamp_count 1 \<le> length (filter (\<lambda>p. KStr p \<notin> viewed_photos example_state)
      (iter_photos (library example_state)))"
    by (simp add: example_state_fields example_photos clamp_count_def)
  have "dated = [(1577934245, ''a.jpg''), (10, ''b.jpg'')]"
    using photo_with_date_gen_known[OF example_state_fields(7) d p1]
    by (simp add: example_state_fields example_photos example_known_dates)
  then have "pick example_env (clamp_count 1) mode dated =
      (if mode = ''Newest'' then [''a.jpg''] else [''b.jpg''])"
    by (simp add: pick_def nlargest_def nsmallest_def clamp_count_def rank_key_def
        less_eq_prod_def)
  with select_photos_dated_enough[OF example_state_fields(7) False p1 e] False
  show ?thesis by simp
qed

lemma tied_state_fields:
  "viewed_photos tied_state = {}"
  "library tied_state = Some [File ''a.jpg'', File ''B.jpg'']"
  "date_cache tied_state ''a.jpg'' = Some 5"
  "date_cache tied_state ''B.jpg'' = Some 5"
  "quiet tied_state"
  by (simp_all add: tied_state_def example_state_def quiet_def)

lemma tied_photos: "iter_photos (Some [File ''a.jpg'', File ''B.jpg'']) = [''a.jpg'', ''B.jpg'']"
  by (simp add: iter_photos_def is_photo_def PHOTO_EXTENSIONS_def suffix_def lower_char_def
      less_eq_char_def)

lemma lower_char_examples:
  "map lower_char ''a.jpg'' = ''a.jpg''" "map lower_char ''B.jpg'' = ''b.jpg''"
  by code_simp+

lemma tied_path_keys:
  "path_key e ''a.jpg'' = ''a.jpg''"
  "path_key e ''B.jpg'' = (if os_name_nt e then ''b.jpg'' else ''B.jpg'')"
  by (simp_all only: path_key_def lower_char_examples if_cancel)

lemma tied_ranking:
  "fst (select_photos e tied_state 1 ''Newest'') =
     (if os_name_nt e then [''B.jpg''] else [''a.jpg''])"
proof -
  obtain dated n s1 where p1:
    "photo_with_date_gen e tied_state 0 (iter_photos (library tied_state)) = (dated, n, s1)"
    by (cases "photo_with_date_gen e tied_state 0 (iter_photos (library tied_state))")
  have d: "\<forall>p \<in> set (iter_photos (library tied_state)).
      KStr p \<notin> viewed_photos tied_state \<longrightarrow> datable e tied_state p"
    by (simp add: tied_state_fields tied_photos datable_def)
  have c: "clamp_count 1 \<le> length (filter (\<lambda>p. KStr p \<notin> viewed_photos tied_state)
      (iter_photos (library tied_state)))"
    by (simp add: tied_state_fields tied_photos clamp_count_def)
  have "dated = [(5, ''a.jpg''), (5, ''B.jpg'')]"
    using photo_with_date_gen_known[OF tied_state_fields(5) d p1]
    by (simp add: tied_state_fields tied_photos known_date_def)
  then have "pick e (clamp_count 1) ''Newest'' dated =
      (if os_name_nt e then [''B.jpg''] else [''a.jpg''])"
    by (simp add: pick_def nlargest_def clamp_count_def rank_key_def tied_path_keys
        less_eq_prod_def less_char_def less_eq_char_def)
  with select_photos_dated_enough[OF tied_state_fields(5) _ p1 c, of "''Newest''"]
  show ?thesis by simp
qed

theorem select_photos_top_count_witness:
  "quiet example_state \<and>
   distinct (map (path_key example_env) (iter_photos (library example_state))) \<and>
   clamp_count 1 \<le> length (filter (\<lambda>p. KStr p \<notin> viewed_photos example_state)
      (iter_photos (library example_state))) \<and>
   fst (select_photos example_env example_state 1 ''Newest'') = [''a.jpg''] \<and>
   fst (select_photos example_env example_state 1 ''Oldest'') = [''b.jpg''] \<and>
   fst (select_photos example_env
     (example_state\<lparr>library :=
        Some [File ''notes.txt'', File ''c.jpg'', File ''b.jpg'', Dir ''Gallery'', File ''a.jpg'']\<rparr>)
     1 ''Newest'') = [''a.jpg''] \<and>
   fst (select_photos example_env
     (example_state\<lparr>library :=
        Some [File ''notes.txt'', File ''c.jpg'', File ''b.jpg'', Dir ''Gallery'', File ''a.jpg'']\<rparr>)
     1 ''Oldest'') = [''b.jpg''] \<and>
   quiet tied_state \<and>
   distinct (map (path_key windows_env) (iter_photos (library tied_state))) \<and>
   path_key windows_env ''a.jpg'' < path_key windows_env ''B.jpg'' \<and>
   fst (select_photos windows_env tied_state 1 ''Newest'') = [''B.jpg''] \<and>
   fst (select_photos windows_env
     (tied_state\<lparr>library := Some [File ''B.jpg'', File ''a.jpg'']\<rparr>) 1 ''Newest'') = [''B.jpg''] \<and>
   fst (select_photos example_env tied_state 1 ''Newest'') = [''a.jpg'']"
proof -
  have m: "mset [File ''notes.txt'', File ''c.jpg'', File ''b.jpg'', Dir ''Gallery'', File ''a.jpg''] =
      mset [File ''a.jpg'', File ''b.jpg'', File ''c.jpg'', Dir ''Gallery'', File ''notes.txt'']"
    "mset [File ''B.jpg'', File ''a.jpg''] = mset [File ''a.jpg'', File ''B.jpg'']"
    by simp_all
  have c: "clamp_count 1 = Suc 0" by (simp add: clamp_count_def)
  have nt: "os_name_nt windows_env" "\<not> os_name_nt example_env"
    by (simp_all add: windows_env_def example_env_def)
  have k: "path_key example_env = (\<lambda>n. n)"
    by (rule ext) (simp add: path_key_def nt)
  have w: "path_key windows_env ''a.jpg'' < path_key windows_env ''B.jpg''"
    "path_key windows_env ''a.jpg'' \<noteq> path_key windows_env ''B.jpg''"
    by (simp_all add: tied_path_keys nt less_char_def)
  have d: "datable windows_env tied_state ''a.jpg''" "datable windows_env tied_state ''B.jpg''"
    by (simp_all add: datable_def tied_state_fields)
  let ?es = "[File ''a.jpg'', File ''b.jpg'', File ''c.jpg'', Dir ''Gallery'', File ''notes.txt'']"
  let ?es2 = "[File ''notes.txt'', File ''c.jpg'', File ''b.jpg'', Dir ''Gallery'', File ''a.jpg'']"
  have t1: "fst (select_photos example_env (example_state\<lparr>library := Some ?es2\<rparr>) 1 ''Newest'') =
      fst (select_photos example_env example_state 1 ''Newest'')"
    using select_photos_top_count[where s = example_state and e = example_env and requested = 1
        and mode = "''Newest''" and es = ?es and ?es2.0 = ?es2]
    by (simp add: example_state_fields example_photos example_known_dates c m k)
  have t2: "fst (select_photos example_env (example_state\<lparr>library := Some ?es2\<rparr>) 1 ''Oldest'') =
      fst (select_photos example_env example_state 1 ''Oldest'')"
    using select_photos_top_count[where s = example_state and e = example_env and requested = 1
        and mode = "''Oldest''" and es = ?es and ?es2.0 = ?es2]
    by (simp add: example_state_fields example_photos example_known_dates c m k)
  have t3: "fst (select_photos windows_env
        (tied_state\<lparr>library := Some [File ''B.jpg'', File ''a.jpg'']\<rparr>) 1 ''Newest'') =
      fst (select_photos windows_env tied_state 1 ''Newest'')"
    using select_photos_top_count[where s = tied_state and e = windows_env and requested = 1
        and mode = "''Newest''" and es = "[File ''a.jpg'', File ''B.jpg'']"
        and ?es2.0 = "[File ''B.jpg'', File ''a.jpg'']"]
    by (simp add: tied_state_fields tied_photos c m w d)
  show ?thesis
    using t1 t2 t3
    by (simp add: example_state_fields example_photos c example_ranking k w tied_state_fields
        tied_photos tied_ranking nt)
qed

lemma fresh_state_fields:
  "viewed_photos (fresh_state es) = {}"
  "library (fresh_state es) = Some es"
  "date_cache (fresh_state es) = Map.empty"
  "clock_reads (fresh_state es) = 0"
  "quiet (fresh_state es)"
  "\<not> operation_cancelled (fresh_state es)"
  "shutdown_after (fresh_state es) = None"
  by (simp_all add: fresh_state_def example_state_def quiet_def)

lemma fresh_photos:
  "iter_photos (Some [File ''c.jpg'', File ''d.jpg'']) = [''c.jpg'', ''d.jpg'']"
  "iter_photos (Some [File ''d.jpg'', File ''c.jpg'']) = [''d.jpg'', ''c.jpg'']"
  by (simp_all add: iter_photos_def is_photo_def PHOTO_EXTENSIONS_def suffix_examples)

lemma example_clock_dates:
  "p \<noteq> ''a.jpg'' \<Longrightarrow> p \<noteq> ''b.jpg'' \<Longrightarrow> date_cache s p = None \<Longrightarrow>
     get_photo_date example_env s p =
       (1000 + real (clock_reads s),
        s\<lparr>clock_reads := Suc (clock_reads s),
          date_cache := (date_cache s)(p \<mapsto> 1000 + real (clock_reads s)),
          cache_dirty := True\<rparr>)"
proof -
  assume a: "p \<noteq> ''a.jpg''" "p \<noteq> ''b.jpg''" "date_cache s p = None"
  have "stat_date example_env p = Inl OSError" using a by (simp add: stat_date_def example_env_def)
  then have "calculate_photo_date_try example_env p = Inl OSError"
    using a by (simp add: calculate_photo_date_try_def example_read_exif_other)
  moreover have "clock example_env = (\<lambda>i. 1000 + real i)" by (simp add: example_env_def)
  ultimately show ?thesis
    using a by (simp add: get_photo_date_def calculate_photo_date_def)
qed

lemma fresh_ranking:
  assumes "p \<noteq> q"
    and pq: "p \<noteq> ''a.jpg''" "p \<noteq> ''b.jpg''" "q \<noteq> ''a.jpg''" "q \<noteq> ''b.jpg''"
    and ph0: "iter_photos (Some [File p, File q]) = [p, q]"
  shows "fst (select_photos example_env (fresh_state [File p, File q]) 1 ''Newest'') = [q]"
proof -
  let ?s = "fresh_state [File p, File q]"
  have ph: "iter_photos (library ?s) = [p, q]"
    using ph0 by (simp only: fresh_state_fields)
  obtain d1 t1 where g1: "get_photo_date example_env ?s p = (d1, t1)"
    by (cases "get_photo_date example_env ?s p")
  have f1: "d1 = 1000" "quiet t1" "viewed_photos t1 = {}" "date_cache t1 q = None"
    "clock_reads t1 = Suc 0"
    using g1 assms(1)
    by (auto simp: example_clock_dates[OF pq(1,2)] fresh_state_fields quiet_def)
  obtain d2 t2 where g2: "get_photo_date example_env t1 q = (d2, t2)"
    by (cases "get_photo_date example_env t1 q")
  have f2: "d2 = 1001"
    using g2 by (auto simp: example_clock_dates[OF pq(3,4) f1(4)] f1(5))
  have g1': "get_photo_date example_env
      (if Suc 0 mod 5000 = 0 then save_date_cache example_env ?s else ?s) p = (1000, t1)"
    using g1 f1(1) by simp
  have g2': "get_photo_date example_env
      (if Suc (Suc 0) mod 5000 = 0 then save_date_cache example_env t1 else t1) q = (1001, t2)"
    using g2 f2 by simp
  have r0: "photo_with_date_gen example_env t2 (Suc (Suc 0)) [] = ([], Suc (Suc 0), t2)"
    by simp
  have v1: "KStr q \<notin> viewed_photos t1" by (simp only: f1(3) empty_iff not_False_eq_True)
  have v0: "KStr p \<notin> viewed_photos ?s" by (simp add: fresh_state_fields)
  note r1 = photo_with_date_gen_unviewed[OF f1(2) v1 g2' r0]
  note r2 = photo_with_date_gen_unviewed[OF fresh_state_fields(5) v0 g1' r1]
  have p1: "photo_with_date_gen example_env ?s 0 (iter_photos (library ?s)) =
      ([(1000, p), (1001, q)], Suc (Suc 0), t2)"
    by (simp only: ph r2)
  have pk: "pick example_env (clamp_count 1) ''Newest'' [(1000, p), (1001, q)] = [q]"
    by (simp add: pick_def nlargest_def clamp_count_def rank_key_def less_eq_prod_def)
  have c: "clamp_count 1 \<le> length (filter (\<lambda>p. KStr p \<notin> viewed_photos ?s) (iter_photos (library ?s)))"
    by (simp add: ph0 fresh_state_fields clamp_count_def)
  from select_photos_dated_enough[OF fresh_state_fields(5) _ p1 c, of "''Newest''"] pk
  show ?thesis by simp
qed

text \<open>
  Claim C3 as stated, for photos whose date cannot be read: stat fails on \<^verbatim>\<open>c.jpg\<close>
  and \<^verbatim>\<open>d.jpg\<close>, so each is dated by the clock at the moment the scan reaches it. In
  Newest mode with a count of 1, the directory listing that names \<^verbatim>\<open>c.jpg\<close> first
  selects \<^verbatim>\<open>d.jpg\<close>, and the listing of the same two files that names \<^verbatim>\<open>d.jpg\<close> first
  selects \<^verbatim>\<open>c.jpg\<close>: the result depends on the order of the enumeration.
\<close>

theorem select_photos_enumeration_order_counterexample:
  "quiet (fresh_state [File ''c.jpg'', File ''d.jpg'']) \<and>
   mset [File ''d.jpg'', File ''c.jpg''] = mset [File ''c.jpg'', File ''d.jpg''] \<and>
   fresh_state [File ''d.jpg'', File ''c.jpg''] =
     (fresh_state [File ''c.jpg'', File ''d.jpg''])\<lparr>library := Some [File ''d.jpg'', File ''c.jpg'']\<rparr> \<and>
   clamp_count 1 \<le> length (filter
     (\<lambda>p. KStr p \<notin> viewed_photos (fresh_state [File ''c.jpg'', File ''d.jpg'']))
     (iter_photos (library (fresh_state [File ''c.jpg'', File ''d.jpg''])))) \<and>
   fst (select_photos example_env (fresh_state [File ''c.jpg'', File ''d.jpg'']) 1 ''Newest'') =
     [''d.jpg''] \<and>
   fst (select_photos example_env (fresh_state [File ''d.jpg'', File ''c.jpg'']) 1 ''Newest'') =
     [''c.jpg'']"
proof -
  have "fst (select_photos example_env (fresh_state [File ''c.jpg'', File ''d.jpg'']) 1 ''Newest'') =
     [''d.jpg'']"
    by (rule fresh_ranking) (simp_all add: fresh_photos)
  moreover have "fst (select_photos example_env (fresh_state [File ''d.jpg'', File ''c.jpg'']) 1 ''Newest'') =
     [''c.jpg'']"
    by (rule fresh_ranking) (simp_all add: fresh_photos)
  moreover have "fresh_state [File ''d.jpg'', File ''c.jpg''] =
     (fresh_state [File ''c.jpg'', File ''d.jpg''])\<lparr>library := Some [File ''d.jpg'', File ''c.jpg'']\<rparr>"
    by (simp add: fresh_state_def)
  ultimately show ?thesis
    by (simp add: fresh_state_fields fresh_photos clamp_count_def)
qed

section \<open>Emptying the gallery: proofs\<close>

lemma exists_in_Some: "exists_in (Some L) n = (n \<in> entry_name ` set L)"
  by (simp add: exists_in_def)

lemma is_set_frame:
  "is_set s = (c, s1) \<Longrightarrow>
     library s1 = library s \<and> gallery s1 = gallery s \<and> viewed_photos s1 = viewed_photos s \<and>
     log_file s1 = log_file s \<and> operation_lock s1 = operation_lock s \<and>
     date_cache s1 = date_cache s"
  by (auto simp: is_set_def split: if_splits option.splits nat.splits)

lemma dir_remove_filter:
  "map_option (filter (\<lambda>x. entry_name x \<notin> set ps)) (dir_remove p g) =
     map_option (filter (\<lambda>x. entry_name x \<notin> set (p # ps))) g"
  by (cases g) (auto simp: dir_remove_def intro: filter_cong)

lemma dir_add_file_new:
  assumes "\<not> exists_in (Some L) p"
  shows "dir_add_file p (Some L) = Some (L @ [File p])"
proof -
  have "filter (\<lambda>x. entry_name x \<noteq> p) L = L"
    using assms by (auto simp: exists_in_def filter_id_conv)
  then show ?thesis by (simp add: dir_add_file_def)
qed

lemma return_gallery_photos_pass:
  "library s = Some L \<Longrightarrow> distinct ps \<Longrightarrow>
   return_gallery_photos e s moved dupes ps = (False, m, d, t) \<Longrightarrow>
     d = dupes @ filter (\<lambda>p. exists_in (Some L) p \<and> \<not> unlink_raises e p) ps \<and>
     m = moved + length (filter (\<lambda>p. \<not> exists_in (Some L) p \<and> \<not> rename_raises e p) ps) \<and>
     gallery t =
       map_option (filter (\<lambda>x. entry_name x \<notin> set (filter (op_succeeds e L) ps)))
         (gallery s) \<and>
     library t =
       Some (L @ map File (filter (\<lambda>p. \<not> exists_in (Some L) p \<and> \<not> rename_raises e p) ps)) \<and>
     viewed_photos t = viewed_photos s \<and> log_file t = log_file s \<and>
     operation_lock t = operation_lock s \<and> date_cache t = date_cache s"
proof (induction ps arbitrary: s L moved dupes)
  case Nil
  then show ?case by (cases "gallery s") (simp_all add: option.map_ident)
next
  case (Cons p ps)
  obtain c0 s1 where i: "is_set s = (c0, s1)" by (cases "is_set s")
  have nc: "\<not> c0" using Cons.prems(3) i by (auto split: if_splits)
  note fr = is_set_frame[OF i]
  have l1: "library s1 = Some L" using fr Cons.prems(1) by simp
  have dps: "distinct ps" and np: "p \<notin> set ps" using Cons.prems(2) by simp_all
  show ?case
  proof (cases "exists_in (Some L) p")
    case True
    show ?thesis
    proof (cases "unlink_raises e p")
      case u: True
      have r: "return_gallery_photos e s1 moved dupes ps = (False, m, d, t)"
        using Cons.prems(3) i nc True u l1 by simp
      have ok: "\<not> op_succeeds e L p" using True u by (simp add: op_succeeds_def)
      from Cons.IH[OF l1 dps r] True u fr ok show ?thesis by (simp del: set_filter)
    next
      case u: False
      let ?s2 = "s1\<lparr>gallery := dir_remove p (gallery s1)\<rparr>"
      have l2: "library ?s2 = Some L" using l1 by simp
      have r: "return_gallery_photos e ?s2 moved (dupes @ [p]) ps = (False, m, d, t)"
        using Cons.prems(3) i nc True u l1 by simp
      have ok: "op_succeeds e L p" using True u by (simp add: op_succeeds_def)
      from Cons.IH[OF l2 dps r] True u fr ok show ?thesis
        by (simp add: dir_remove_filter del: set_filter)
    qed
  next
    case False
    show ?thesis
    proof (cases "rename_raises e p")
      case u: True
      have r: "return_gallery_photos e s1 moved dupes ps = (False, m, d, t)"
        using Cons.prems(3) i nc False u l1 by simp
      have ok: "\<not> op_succeeds e L p" using False u by (simp add: op_succeeds_def)
      from Cons.IH[OF l1 dps r] False u fr ok show ?thesis by (simp del: set_filter)
    next
      case u: False
      let ?L2 = "L @ [File p]"
      let ?s2 = "s1\<lparr>gallery := dir_remove p (gallery s1), library := Some ?L2\<rparr>"
      have l2: "library ?s2 = Some ?L2" by simp
      have r: "return_gallery_photos e ?s2 (Suc moved) dupes ps = (False, m, d, t)"
        using Cons.prems(3) i nc False u l1 by (simp add: dir_add_file_new[OF False])
      have same: "\<forall>q \<in> set ps. exists_in (Some ?L2) q = exists_in (Some L) q"
        using np by (auto simp: exists_in_def)
      then have f1: "filter (\<lambda>q. exists_in (Some ?L2) q \<and> \<not> unlink_raises e q) ps =
                     filter (\<lambda>q. exists_in (Some L) q \<and> \<not> unlink_raises e q) ps"
        and f2: "filter (\<lambda>q. \<not> exists_in (Some ?L2) q \<and> \<not> rename_raises e q) ps =
                 filter (\<lambda>q. \<not> exists_in (Some L) q \<and> \<not> rename_raises e q) ps"
        and f3: "filter (op_succeeds e ?L2) ps = filter (op_succeeds e L) ps"
        by (auto simp: op_succeeds_def intro: filter_cong)
      have ok: "op_succeeds e L p" using False u by (simp add: op_succeeds_def)
      from Cons.IH[OF l2 dps r] False u fr ok show ?thesis
        by (simp add: dir_remove_filter f1 f2 f3 del: set_filter)
    qed
  qed
qed

lemma forget_dupes_view:
  "viewed_photos (forget_dupes e s dupes) = viewed_photos s - KStr ` set dupes"
  by (simp add: forget_dupes_def save_viewed_photos_def)

lemma empty_gallery_pass:
  assumes nc: "\<not> fst (empty_gallery e s)" and l: "library s = Some L"
    and d: "distinct (iter_photos (gallery s))"
  shows
    "fst (snd (empty_gallery e s)) =
       length (filter (\<lambda>p. \<not> exists_in (Some L) p \<and> \<not> rename_raises e p)
         (iter_photos (gallery s))) \<and>
     viewed_photos (emptied e s) =
       viewed_photos s - KStr ` {p \<in> set (iter_photos (gallery s)).
                                   exists_in (Some L) p \<and> \<not> unlink_raises e p} \<and>
     library (emptied e s) =
       Some (L @ map File (filter (\<lambda>p. \<not> exists_in (Some L) p \<and> \<not> rename_raises e p)
         (iter_photos (gallery s)))) \<and>
     gallery (emptied e s) =
       map_option (filter (\<lambda>x. entry_name x \<notin> set (filter (op_succeeds e L)
         (iter_photos (gallery s))))) (gallery s)"
proof -
  let ?ps = "iter_photos (gallery s)"
  obtain c m dupes t where r: "return_gallery_photos e s 0 [] ?ps = (c, m, dupes, t)"
    by (cases "return_gallery_photos e s 0 [] ?ps") auto
  have c: "\<not> c" using nc r by (auto simp: empty_gallery_def)
  then have r': "return_gallery_photos e s 0 [] ?ps = (False, m, dupes, t)" using r by simp
  have e: "empty_gallery e s = (False, m, forget_dupes e t dupes)"
    using r' by (simp add: empty_gallery_def)
  from return_gallery_photos_pass[OF l d r']
  have f: "dupes = filter (\<lambda>p. exists_in (Some L) p \<and> \<not> unlink_raises e p) ?ps"
    "m = length (filter (\<lambda>p. \<not> exists_in (Some L) p \<and> \<not> rename_raises e p) ?ps)"
    "gallery t = map_option (filter (\<lambda>x. entry_name x \<notin> set (filter (op_succeeds e L) ?ps)))
         (gallery s)"
    "library t = Some (L @ map File (filter (\<lambda>p. \<not> exists_in (Some L) p \<and> \<not> rename_raises e p) ?ps))"
    "viewed_photos t = viewed_photos s"
    by simp_all
  have fd: "library (forget_dupes e t dupes) = library t" "gallery (forget_dupes e t dupes) = gallery t"
    by (simp_all add: forget_dupes_def save_viewed_photos_def)
  have s: "set dupes = {p \<in> set ?ps. exists_in (Some L) p \<and> \<not> unlink_raises e p}"
    by (simp add: f(1))
  show ?thesis
    unfolding e using f(2-5) s by (simp add: forget_dupes_view fd del: set_filter)
qed

lemma exists_in_filter:
  "exists_in (map_option (filter (\<lambda>x. entry_name x \<notin> R)) g) q = (exists_in g q \<and> q \<notin> R)"
  by (cases g) (auto simp: exists_in_def)

lemma iter_photos_exists: "p \<in> set (iter_photos g) \<Longrightarrow> exists_in g p"
  by (cases g) (auto simp: iter_photos_def exists_in_def)

lemma filter_one_distinct: "distinct xs \<Longrightarrow> p \<in> set xs \<Longrightarrow> filter (\<lambda>q. q = p) xs = [p]"
proof (induction xs)
  case Nil
  then show ?case by simp
next
  case (Cons x xs)
  show ?case
  proof (cases "x = p")
    case True
    with Cons.prems have "p \<notin> set xs" by simp
    then have "filter (\<lambda>q. q = p) xs = []" by (auto simp: filter_empty_conv)
    with True show ?thesis by simp
  next
    case False
    with Cons show ?thesis by simp
  qed
qed

lemma filter_name_distinct:
  "distinct (map entry_name L) \<Longrightarrow> x \<in> set L \<Longrightarrow>
     filter (\<lambda>y. entry_name y = entry_name x) L = [x]"
proof (induction L)
  case Nil
  then show ?case by simp
next
  case (Cons a L)
  show ?case
  proof (cases "a = x")
    case True
    with Cons.prems(1) have "entry_name x \<notin> entry_name ` set L" by simp
    then have "\<forall>y \<in> set L. entry_name y \<noteq> entry_name x" by (metis imageI)
    then have "filter (\<lambda>y. entry_name y = entry_name x) L = []"
      by (simp add: filter_empty_conv)
    with True show ?thesis by simp
  next
    case False
    with Cons.prems have x: "x \<in> set L" and d: "distinct (map entry_name L)" by simp_all
    from x Cons.prems(1) have "entry_name a \<noteq> entry_name x" by auto
    with Cons.IH[OF d x] show ?thesis by simp
  qed
qed

text \<open>
  Claim C2, amended. The pass that empties the gallery, which both the switch and the
  clear operation run, when it is not cancelled, for a library that exists and a
  gallery whose listing names no photo twice. For every photo of the gallery: if a
  file of the same name exists in the library and deleting the gallery copy does not
  fail, the copy leaves the gallery, its name is removed from the view history and the
  entries of the library under that name stay as they are, which is exactly one copy
  when the names of the library are not repeated; if no entry of that name exists in the
  library and the move does not fail, the photo leaves the gallery and is the one entry
  of its name in the library, its name staying in or out of the view history as it
  was; if the file operation fails, the photo stays in the gallery and neither the
  library nor the view history changes for its name. The pass adds nothing to the view
  history and removes only names of gallery photos; the library keeps its entries, and
  its names stay unrepeated. The clear operation ends reporting the number of photos
  moved back, in the state the pass leaves, with the lock released; the switch
  operation continues from that state with the selection and ends as that second half
  ends.
\<close>

theorem empty_gallery_reconciles:
  assumes nc: "\<not> fst (empty_gallery e s)" and l: "library s = Some L"
    and d: "distinct (iter_photos (gallery s))"
  shows
    "(\<forall>p \<in> set (iter_photos (gallery s)).
        (File p \<in> set L \<and> \<not> unlink_raises e p \<longrightarrow>
           \<not> exists_in (gallery (emptied e s)) p \<and>
           KStr p \<notin> viewed_photos (emptied e s) \<and>
           filter (\<lambda>x. entry_name x = p) (the (library (emptied e s))) =
             filter (\<lambda>x. entry_name x = p) L \<and>
           (distinct (map entry_name L) \<longrightarrow>
              filter (\<lambda>x. entry_name x = p) (the (library (emptied e s))) = [File p])) \<and>
        (\<not> exists_in (library s) p \<and> \<not> rename_raises e p \<longrightarrow>
           \<not> exists_in (gallery (emptied e s)) p \<and>
           filter (\<lambda>x. entry_name x = p) (the (library (emptied e s))) = [File p] \<and>
           (KStr p \<in> viewed_photos (emptied e s)) = (KStr p \<in> viewed_photos s)) \<and>
        ((if exists_in (library s) p then unlink_raises e p else rename_raises e p) \<longrightarrow>
           exists_in (gallery (emptied e s)) p \<and>
           filter (\<lambda>x. entry_name x = p) (the (library (emptied e s))) =
             filter (\<lambda>x. entry_name x = p) L \<and>
           (KStr p \<in> viewed_photos (emptied e s)) = (KStr p \<in> viewed_photos s))) \<and>
     viewed_photos (emptied e s) \<subseteq> viewed_photos s \<and>
     viewed_photos s - viewed_photos (emptied e s) \<subseteq> KStr ` set (iter_photos (gallery s)) \<and>
     set L \<subseteq> set (the (library (emptied e s))) \<and>
     (distinct (map entry_name L) \<longrightarrow>
        distinct (map entry_name (the (library (emptied e s))))) \<and>
     fst (snd (empty_gallery e s)) =
       length (filter (\<lambda>p. \<not> exists_in (library s) p \<and> \<not> rename_raises e p)
         (iter_photos (gallery s))) \<and>
     (gallery s \<noteq> None \<longrightarrow>
        clear_gallery_worker e s =
          (MovedBack (fst (snd (empty_gallery e s))),
           (emptied e s)\<lparr>operation_lock := False\<rparr>)) \<and>
     (gallery s \<noteq> None \<longrightarrow>
        switch_photos_worker e s =
          (case fst (fill_gallery e (emptied e s)) of Inl err \<Rightarrow> Failed err | Inr out \<Rightarrow> out,
           (snd (fill_gallery e (emptied e s)))\<lparr>operation_lock := False\<rparr>))"
proof -
  let ?ps = "iter_photos (gallery s)"
  let ?t = "emptied e s"
  let ?new = "filter (\<lambda>p. \<not> exists_in (Some L) p \<and> \<not> rename_raises e p) ?ps"
  from empty_gallery_pass[OF nc l d]
  have mv: "fst (snd (empty_gallery e s)) = length ?new"
    and v: "viewed_photos ?t = viewed_photos s -
              KStr ` {p \<in> set ?ps. exists_in (Some L) p \<and> \<not> unlink_raises e p}"
    and lt: "library ?t = Some (L @ map File ?new)"
    and gt: "gallery ?t = map_option
              (filter (\<lambda>x. entry_name x \<notin> set (filter (op_succeeds e L) ?ps))) (gallery s)"
    by simp_all
  have dn: "distinct ?new" using d by (rule distinct_filter)
  have gq: "\<And>q. exists_in (gallery ?t) q =
      (exists_in (gallery s) q \<and> \<not> (q \<in> set ?ps \<and> op_succeeds e L q))"
    by (simp only: gt exists_in_filter) simp
  have lq: "\<And>q. filter (\<lambda>x. entry_name x = q) (the (library ?t)) =
      filter (\<lambda>x. entry_name x = q) L @ map File (filter (\<lambda>r. r = q) ?new)"
    by (simp add: lt filter_map o_def)
  have nq: "\<And>q. q \<notin> set ?new \<Longrightarrow> filter (\<lambda>r. r = q) ?new = []"
    by (auto simp: filter_empty_conv)
  have vq: "\<And>q. (KStr q \<in> viewed_photos ?t) =
      (KStr q \<in> viewed_photos s \<and> \<not> (q \<in> set ?ps \<and> exists_in (Some L) q \<and> \<not> unlink_raises e q))"
    by (auto simp: v)
  have per: "\<forall>p \<in> set ?ps.
        (File p \<in> set L \<and> \<not> unlink_raises e p \<longrightarrow>
           \<not> exists_in (gallery ?t) p \<and> KStr p \<notin> viewed_photos ?t \<and>
           filter (\<lambda>x. entry_name x = p) (the (library ?t)) = filter (\<lambda>x. entry_name x = p) L \<and>
           (distinct (map entry_name L) \<longrightarrow>
              filter (\<lambda>x. entry_name x = p) (the (library ?t)) = [File p])) \<and>
        (\<not> exists_in (library s) p \<and> \<not> rename_raises e p \<longrightarrow>
           \<not> exists_in (gallery ?t) p \<and>
           filter (\<lambda>x. entry_name x = p) (the (library ?t)) = [File p] \<and>
           (KStr p \<in> viewed_photos ?t) = (KStr p \<in> viewed_photos s)) \<and>
        ((if exists_in (library s) p then unlink_raises e p else rename_raises e p) \<longrightarrow>
           exists_in (gallery ?t) p \<and>
           filter (\<lambda>x. entry_name x = p) (the (library ?t)) = filter (\<lambda>x. entry_name x = p) L \<and>
           (KStr p \<in> viewed_photos ?t) = (KStr p \<in> viewed_photos s))"
  proof (intro ballI conjI impI)
    fix p assume p: "p \<in> set ?ps"
    {
      assume a: "File p \<in> set L \<and> \<not> unlink_raises e p"
      then have "entry_name (File p) \<in> entry_name ` set L" by (intro imageI) simp
      then have ex: "exists_in (Some L) p" by (simp add: exists_in_Some)
      with a have ok: "op_succeeds e L p" by (simp add: op_succeeds_def)
      show "\<not> exists_in (gallery ?t) p" using p ok by (simp add: gq)
      show "KStr p \<notin> viewed_photos ?t" using p ex a by (simp add: vq)
      have "p \<notin> set ?new" using ex by simp
      then have "filter (\<lambda>r. r = p) ?new = []" by (rule nq)
      then show same: "filter (\<lambda>x. entry_name x = p) (the (library ?t)) =
          filter (\<lambda>x. entry_name x = p) L"
        by (simp only: lq) simp
      {
        assume dl: "distinct (map entry_name L)"
        from a have "File p \<in> set L" by simp
        from filter_name_distinct[OF dl this] same
        show "filter (\<lambda>x. entry_name x = p) (the (library ?t)) = [File p]" by simp
      }
    }
    {
      assume a: "\<not> exists_in (library s) p \<and> \<not> rename_raises e p"
      then have nex: "\<not> exists_in (Some L) p" by (simp add: l)
      with a have ok: "op_succeeds e L p" by (simp add: op_succeeds_def)
      show "\<not> exists_in (gallery ?t) p" using p ok by (simp add: gq)
      have "p \<in> set ?new" using p nex a by simp
      from filter_one_distinct[OF dn this]
      have one: "filter (\<lambda>r. r = p) ?new = [p]" .
      have "filter (\<lambda>x. entry_name x = p) L = []"
        using nex by (auto simp: filter_empty_conv exists_in_def)
      then show "filter (\<lambda>x. entry_name x = p) (the (library ?t)) = [File p]"
        by (simp only: lq one) simp
      show "(KStr p \<in> viewed_photos ?t) = (KStr p \<in> viewed_photos s)"
        using nex by (simp add: vq)
    }
    {
      assume a: "if exists_in (library s) p then unlink_raises e p else rename_raises e p"
      then have nok: "\<not> op_succeeds e L p" by (simp add: op_succeeds_def l split: if_splits)
      from p have "exists_in (gallery s) p" by (rule iter_photos_exists)
      then show "exists_in (gallery ?t) p" using nok by (simp add: gq)
      have "p \<notin> set ?new" using a by (auto simp: l split: if_splits)
      then have "filter (\<lambda>r. r = p) ?new = []" by (rule nq)
      then show "filter (\<lambda>x. entry_name x = p) (the (library ?t)) =
          filter (\<lambda>x. entry_name x = p) L"
        by (simp only: lq) simp
      show "(KStr p \<in> viewed_photos ?t) = (KStr p \<in> viewed_photos s)"
        using a by (auto simp: vq l split: if_splits)
    }
  qed
  have v1: "viewed_photos ?t \<subseteq> viewed_photos s" by (auto simp: v)
  have v2: "viewed_photos s - viewed_photos ?t \<subseteq> KStr ` set ?ps" by (auto simp: v)
  have sub: "set L \<subseteq> set (the (library ?t))" by (simp add: lt)
  have dl: "distinct (map entry_name L) \<longrightarrow> distinct (map entry_name (the (library ?t)))"
  proof
    assume "distinct (map entry_name L)"
    moreover have "map entry_name (map File ?new) = ?new" by (simp add: o_def)
    moreover have "set ?new \<inter> entry_name ` set L = {}" by (auto simp: exists_in_def)
    ultimately show "distinct (map entry_name (the (library ?t)))"
      using dn by (auto simp: lt)
  qed
  have mv': "fst (snd (empty_gallery e s)) =
       length (filter (\<lambda>p. \<not> exists_in (library s) p \<and> \<not> rename_raises e p) ?ps)"
    by (simp only: mv l)
  have cw: "gallery s \<noteq> None \<longrightarrow>
        clear_gallery_worker e s =
          (MovedBack (fst (snd (empty_gallery e s))), ?t\<lparr>operation_lock := False\<rparr>)"
    using nc by (simp add: clear_gallery_worker_def clear_gallery_worker_try_def split_beta)
  have sw: "gallery s \<noteq> None \<longrightarrow>
        switch_photos_worker e s =
          (case fst (fill_gallery e ?t) of Inl err \<Rightarrow> Failed err | Inr out \<Rightarrow> out,
           (snd (fill_gallery e ?t))\<lparr>operation_lock := False\<rparr>)"
    using nc l by (simp add: switch_photos_worker_def switch_photos_worker_try_def split_beta)
  from per v1 v2 sub dl mv' cw sw show ?thesis by (intro conjI)
qed

lemma example_env_files:
  "unlink_raises example_env = (\<lambda>p. False)" "rename_raises example_env = (\<lambda>p. False)"
  "photo_count example_env = Some 1" "selection_mode example_env = ''Random''"
  by (simp_all add: example_env_def)

lemma example_photos_returned:
  "iter_photos (Some [File ''a.jpg'', File ''b.jpg'', File ''c.jpg'', Dir ''Gallery'',
      File ''notes.txt'', File ''d.jpg'']) = [''a.jpg'', ''b.jpg'', ''c.jpg'', ''d.jpg'']"
  by (simp add: iter_photos_def is_photo_def PHOTO_EXTENSIONS_def suffix_examples)

lemma example_emptied:
  "\<not> fst (empty_gallery example_env example_state)"
  "quiet (emptied example_env example_state)"
  "library (emptied example_env example_state) =
     Some [File ''a.jpg'', File ''b.jpg'', File ''c.jpg'', Dir ''Gallery'', File ''notes.txt'',
           File ''d.jpg'']"
  "gallery (emptied example_env example_state) = Some []"
  "viewed_photos (emptied example_env example_state) = {}"
  "fst (snd (empty_gallery example_env example_state)) = 1"
proof -
  note nc = empty_gallery_not_cancelled[OF example_state_fields(7), of example_env]
  show "\<not> fst (empty_gallery example_env example_state)"
    "quiet (emptied example_env example_state)"
    using nc by simp_all
  from nc have n: "\<not> fst (empty_gallery example_env example_state)" by simp
  note p = empty_gallery_pass[OF n example_state_fields(2)]
  have d: "distinct (iter_photos (gallery example_state))"
    by (simp add: example_state_fields example_photos)
  show "library (emptied example_env example_state) =
     Some [File ''a.jpg'', File ''b.jpg'', File ''c.jpg'', Dir ''Gallery'', File ''notes.txt'',
           File ''d.jpg'']"
    "gallery (emptied example_env example_state) = Some []"
    "viewed_photos (emptied example_env example_state) = {}"
    "fst (snd (empty_gallery example_env example_state)) = 1"
    using p[OF d]
    by (auto simp: example_state_fields example_photos example_env_files exists_in_def
        op_succeeds_def)
qed

lemma example_fill_gallery:
  assumes "quiet t"
    and "library t = Some [File ''a.jpg'', File ''b.jpg'', File ''c.jpg'', Dir ''Gallery'',
      File ''notes.txt'', File ''d.jpg'']"
    and "viewed_photos t = {}" and "gallery t = Some []"
  shows "fst (fill_gallery example_env t) = Inr (Switched 1)"
    and "viewed_photos (snd (fill_gallery example_env t)) = {KStr ''a.jpg''}"
    and "gallery (snd (fill_gallery example_env t)) = Some [File ''a.jpg'']"
proof -
  have c: "clamp_count 1 = Suc 0" by (simp add: clamp_count_def)
  have sel: "select_photos example_env t 1 ''Random'' = ([''a.jpg''], t)"
    by (simp add: select_photos_random_quiet[OF assms(1)] assms(2,3) example_photos_returned c
        example_env_fields)
  have mv: "move_to_gallery example_env t 0 [''a.jpg''] =
      (False, Suc 0,
       t\<lparr>library := dir_remove ''a.jpg'' (library t),
          gallery := dir_add_file ''a.jpg'' (gallery t),
          viewed_photos := insert (KStr ''a.jpg'') (viewed_photos t)\<rparr>)"
    by (simp add: is_set_quiet[OF assms(1)] assms(2,4) example_env_files exists_in_def)
  show "fst (fill_gallery example_env t) = Inr (Switched 1)"
    and "viewed_photos (snd (fill_gallery example_env t)) = {KStr ''a.jpg''}"
    and "gallery (snd (fill_gallery example_env t)) = Some [File ''a.jpg'']"
    by (simp_all add: fill_gallery_def example_env_files sel mv assms(3,4) save_viewed_photos_def
        dir_add_file_def del: move_to_gallery.simps)
qed

theorem empty_gallery_reconciles_witness:
  "\<not> fst (empty_gallery example_env example_state) \<and>
   distinct (iter_photos (gallery example_state)) \<and>
   \<not> exists_in (gallery (emptied example_env example_state)) ''c.jpg'' \<and>
   \<not> exists_in (gallery (emptied example_env example_state)) ''d.jpg'' \<and>
   KStr ''c.jpg'' \<notin> viewed_photos (emptied example_env example_state) \<and>
   filter (\<lambda>x. entry_name x = ''c.jpg'') (the (library (emptied example_env example_state))) =
     [File ''c.jpg''] \<and>
   filter (\<lambda>x. entry_name x = ''d.jpg'') (the (library (emptied example_env example_state))) =
     [File ''d.jpg''] \<and>
   fst (clear_gallery_worker example_env example_state) = MovedBack 1 \<and>
   fst (switch_photos_worker example_env example_state) = Switched 1 \<and>
   viewed_photos (snd (switch_photos_worker example_env example_state)) = {KStr ''a.jpg''} \<and>
   gallery (snd (switch_photos_worker example_env example_state)) = Some [File ''a.jpg'']"
proof -
  note f = example_fill_gallery[OF example_emptied(2,3,5,4)]
  show ?thesis
    using empty_gallery_reconciles[where s = example_state and e = example_env
        and L = "[File ''a.jpg'', File ''b.jpg'', File ''c.jpg'', Dir ''Gallery'', File ''notes.txt'']"]
    by (simp add: example_state_fields example_photos example_env_files exists_in_def
        example_emptied(1,6) f)
qed

lemma locked_env_files:
  "unlink_raises locked_env = (\<lambda>p. p = ''c.jpg'')" "rename_raises locked_env = (\<lambda>p. False)"
  by (simp_all add: locked_env_def example_env_def)

text \<open>
  Claim C2 as stated, when a file operation fails: the gallery copy of \<^verbatim>\<open>c.jpg\<close>, a
  file that also exists in the library, cannot be deleted. The handler of lines 432
  and 433 logs the failure and the pass goes on: it is not cancelled and moves
  \<^verbatim>\<open>d.jpg\<close> back, the clear operation reports one photo moved, yet \<^verbatim>\<open>c.jpg\<close> is
  still in the gallery, so that the name has a copy in each directory, and is still in
  the view history.
\<close>

theorem empty_gallery_unlink_failure_counterexample:
  "\<not> fst (empty_gallery locked_env example_state) \<and>
   ''c.jpg'' \<in> set (iter_photos (gallery example_state)) \<and>
   File ''c.jpg'' \<in> set (the (library example_state)) \<and>
   KStr ''c.jpg'' \<in> viewed_photos example_state \<and>
   exists_in (gallery (emptied locked_env example_state)) ''c.jpg'' \<and>
   exists_in (library (emptied locked_env example_state)) ''c.jpg'' \<and>
   KStr ''c.jpg'' \<in> viewed_photos (emptied locked_env example_state) \<and>
   fst (clear_gallery_worker locked_env example_state) = MovedBack 1 \<and>
   exists_in (gallery (snd (clear_gallery_worker locked_env example_state))) ''c.jpg'' \<and>
   KStr ''c.jpg'' \<in> viewed_photos (snd (clear_gallery_worker locked_env example_state))"
proof -
  note nc = empty_gallery_not_cancelled[OF example_state_fields(7), of locked_env]
  then have n: "\<not> fst (empty_gallery locked_env example_state)" by simp
  have d: "distinct (iter_photos (gallery example_state))"
    by (simp add: example_state_fields example_photos)
  note p = empty_gallery_pass[OF n example_state_fields(2) d]
  have t: "gallery (emptied locked_env example_state) = Some [File ''c.jpg'']"
    "library (emptied locked_env example_state) =
       Some [File ''a.jpg'', File ''b.jpg'', File ''c.jpg'', Dir ''Gallery'', File ''notes.txt'',
             File ''d.jpg'']"
    "viewed_photos (emptied locked_env example_state) = {KStr ''c.jpg''}"
    "fst (snd (empty_gallery locked_env example_state)) = 1"
    using p
    by (auto simp: example_state_fields example_photos locked_env_files exists_in_def
        op_succeeds_def)
  have w: "clear_gallery_worker locked_env example_state =
      (MovedBack (fst (snd (empty_gallery locked_env example_state))),
       (emptied locked_env example_state)\<lparr>operation_lock := False\<rparr>)"
    using n by (simp add: clear_gallery_worker_def clear_gallery_worker_try_def split_beta
        example_state_fields)
  show ?thesis
    using n by (simp add: w t example_state_fields example_photos exists_in_def)
qed

text \<open>
  A subdirectory of the library that carries the name of a gallery photo makes
  \<^verbatim>\<open>new_path.exists()\<close> true as well: the photo is deleted, although the library holds
  no file of that name.
\<close>

lemma empty_gallery_directory_example:
  "return_gallery_photos example_env
     (example_state\<lparr>library := Some [Dir ''d.jpg''], gallery := Some [File ''d.jpg'']\<rparr>)
     0 [] [''d.jpg''] =
   (False, 0, [''d.jpg''],
    example_state\<lparr>library := Some [Dir ''d.jpg''], gallery := Some []\<rparr>)"
  by (simp add: is_set_def example_state_def example_env_files exists_in_def dir_remove_def)

end
